theory Spec2Isabelle
  imports Main "HOL-Library.Sublist"
begin

section \<open>The Danbooru scraper engine (scraper.py)\<close>

text \<open>
  The engine of \<^verbatim>\<open>scraper.py\<close> is the class \<^verbatim>\<open>DanbooruScraper\<close>: a progress
  dictionary kept in memory and rewritten to a state file, a page fetcher over HTTP, a
  sink that appends one JSON line per record to the output file, a pagination loop over
  one ID window (\<^verbatim>\<open>_scrape_id_range\<close>) and the batch driver (\<^verbatim>\<open>scrape_all\<close>).
  Everything the engine does to the outside is made explicit here: the files are fields
  of a world record, the upstream service and the failures of file operations are
  oracles of an environment record, and every call that reaches the outside is written
  to a trace.
\<close>

subsection \<open>Records and their JSON text\<close>

text \<open>
  A float, as far as its text goes. For a finite value \<^verbatim>\<open>json.dumps\<close> writes
  \<^verbatim>\<open>float.__repr__\<close>: a sign, the digits before the point, the digits after it, and a
  power of ten when \<^verbatim>\<open>repr\<close> uses exponent notation (\<^verbatim>\<open>1.5\<close>, \<^verbatim>\<open>100.0\<close>,
  \<^verbatim>\<open>1e+16\<close>, \<^verbatim>\<open>1.5e-07\<close>). For the other values it writes the tokens
  \<^verbatim>\<open>Infinity\<close>, \<^verbatim>\<open>-Infinity\<close> and \<^verbatim>\<open>NaN\<close>; for a number like \<^verbatim>\<open>1e999\<close> in
  the body \<^verbatim>\<open>response.json()\<close> gives such a float.
\<close>

datatype jfloat = Finite bool nat "nat list" "int option" | PosInf | NegInf | NaN

text \<open>The values \<^verbatim>\<open>response.json()\<close> can hold.\<close>

datatype json = JNull | JBool bool | JInt int | JFloat jfloat | JStr string
  | JArr "json list" | JObj "(string \<times> json) list"

text \<open>
  The engine reads the \<^verbatim>\<open>id\<close> of a record and passes everything else through, in
  the order received: a record is its integer id, the members that came before the
  \<^verbatim>\<open>id\<close> member and those that came after it. A body that does not decode to an
  array of such records is outside this model.
\<close>

record post =
  post_id :: int
  post_before :: "(string \<times> json) list"
  post_after :: "(string \<times> json) list"

definition post_json :: "post \<Rightarrow> json" where
  "post_json p = JObj (post_before p @ (''id'', JInt (post_id p)) # post_after p)"

definition newline :: char where
  "newline = CHR 0x0A"

definition carriage_return :: char where
  "carriage_return = CHR 0x0D"

text \<open>
  \<^verbatim>\<open>json.dumps(post, ensure_ascii=False)\<close> of the standard library, with its default
  separators: decimal integers, floats as described above, strings in double quotes
  with the quote, the backslash and every character below 0x20 escaped, members joined
  by a comma and a space.
\<close>

definition digit_char :: "nat \<Rightarrow> char" where
  "digit_char d = ''0123456789abcdef'' ! (d mod 16)"

fun str_nat :: "nat \<Rightarrow> string" where
  "str_nat n = (if n < 10 then [digit_char n] else str_nat (n div 10) @ [digit_char (n mod 10)])"

declare str_nat.simps [simp del]

definition str_int :: "int \<Rightarrow> string" where
  "str_int i = (if i < 0 then CHR ''-'' # str_nat (nat (- i)) else str_nat (nat i))"

definition dec_digits :: "nat list \<Rightarrow> string" where
  "dec_digits ds = map (\<lambda>d. digit_char (d mod 10)) ds"

definition float_text :: "jfloat \<Rightarrow> string" where
  "float_text x =
     (case x of
        PosInf \<Rightarrow> ''Infinity''
      | NegInf \<Rightarrow> ''-Infinity''
      | NaN \<Rightarrow> ''NaN''
      | Finite negative whole frac ex \<Rightarrow>
          (if negative then ''-'' else []) @ str_nat whole @
          (case ex of
             None \<Rightarrow> ''.'' @ (if frac = [] then ''0'' else dec_digits frac)
           | Some x \<Rightarrow>
               (if frac = [] then [] else ''.'' @ dec_digits frac) @ ''e'' @
               (if x < 0 then ''-'' else ''+'') @
               (if nat \<bar>x\<bar> < 10 then ''0'' else []) @ str_nat (nat \<bar>x\<bar>)))"

definition escape_char :: "char \<Rightarrow> string" where
  "escape_char c =
     (if c = CHR 0x22 then [CHR 0x5C, CHR 0x22]
      else if c = CHR 0x5C then [CHR 0x5C, CHR 0x5C]
      else if c = CHR 0x0A then [CHR 0x5C, CHR ''n'']
      else if c = CHR 0x0D then [CHR 0x5C, CHR ''r'']
      else if c = CHR 0x09 then [CHR 0x5C, CHR ''t'']
      else if c = CHR 0x08 then [CHR 0x5C, CHR ''b'']
      else if c = CHR 0x0C then [CHR 0x5C, CHR ''f'']
      else if (of_char c :: nat) < 32
        then [CHR 0x5C, CHR ''u'', CHR ''0'', CHR ''0'',
              digit_char (of_char c div 16), digit_char (of_char c mod 16)]
      else [c])"

definition quote :: "string \<Rightarrow> string" where
  "quote s = CHR 0x22 # concat (map escape_char s) @ [CHR 0x22]"

fun join :: "string \<Rightarrow> string list \<Rightarrow> string" where
  "join sep [] = []"
| "join sep [x] = x"
| "join sep (x # y # ys) = x @ sep @ join sep (y # ys)"

fun json_dumps :: "json \<Rightarrow> string" where
  "json_dumps JNull = ''null''"
| "json_dumps (JBool b) = (if b then ''true'' else ''false'')"
| "json_dumps (JInt i) = str_int i"
| "json_dumps (JFloat x) = float_text x"
| "json_dumps (JStr s) = quote s"
| "json_dumps (JArr vs) = ''['' @ join '', '' (map json_dumps vs) @ '']''"
| "json_dumps (JObj kvs) =
     ''{'' @ join '', '' (map (\<lambda>kv. quote (fst kv) @ '': '' @ json_dumps (snd kv)) kvs) @ ''}''"

text \<open>The line \<^verbatim>\<open>_append_posts_to_file\<close> writes for one record.\<close>

definition post_line :: "post \<Rightarrow> string" where
  "post_line p = json_dumps (post_json p) @ [newline]"

text \<open>
  Reading the output back, as \<^verbatim>\<open>analyze_posts.py\<close> does (\<^verbatim>\<open>for line in f\<close> on a
  file opened in text mode, so with universal newlines): the text is cut after every
  newline, after every carriage return followed by a newline and after every other
  carriage return, and a last piece without one is a line too. The lines are given
  without their line ends.
\<close>

fun file_lines_from :: "string \<Rightarrow> string \<Rightarrow> string list" where
  "file_lines_from cur [] = (if cur = [] then [] else [cur])"
| "file_lines_from cur [ch] =
     (if ch = newline \<or> ch = carriage_return then [cur] else [cur @ [ch]])"
| "file_lines_from cur (ch # nx # cs) =
     (if ch = newline then cur # file_lines_from [] (nx # cs)
      else if ch = carriage_return
        then (if nx = newline then cur # file_lines_from [] cs
              else cur # file_lines_from [] (nx # cs))
      else file_lines_from (cur @ [ch]) (nx # cs))"

definition file_lines :: "string \<Rightarrow> string list" where
  "file_lines txt = file_lines_from [] txt"

definition count_posts :: "string \<Rightarrow> nat" where
  "count_posts txt = length (file_lines txt)"

subsection \<open>Progress state, files, environment\<close>

text \<open>
  \<^verbatim>\<open>self.state\<close>. The key \<^verbatim>\<open>current_batch_start\<close> is read with
  \<^verbatim>\<open>.get('current_batch_start', 1)\<close>, so it may be absent from a loaded dictionary;
  the other keys are read by subscript and are taken to be there, with integer counts.
\<close>

record pstate =
  last_processed_id :: int
  total_posts_scraped :: int
  last_update :: "string option"
  current_batch_start :: "int option"

definition default_state :: pstate where
  "default_state = \<lparr>last_processed_id = 0, total_posts_scraped = 0,
     last_update = None, current_batch_start = Some 1\<rparr>"

definition checkpoint :: "pstate \<Rightarrow> int" where
  "checkpoint st = (case current_batch_start st of None \<Rightarrow> 1 | Some b \<Rightarrow> b)"

text \<open>
  The text \<^verbatim>\<open>json.dump(self.state, f, indent=2)\<close> writes: the members in the order of
  the dictionary, one per line, indented by two spaces. The time stamp is the text of
  \<^verbatim>\<open>isoformat\<close>, which is ASCII.
\<close>

definition state_text :: "pstate \<Rightarrow> string" where
  "state_text st =
     ''{'' @ [newline] @ ''  '' @
     join ('','' @ [newline] @ ''  '')
       ([quote ''last_processed_id'' @ '': '' @ str_int (last_processed_id st),
         quote ''total_posts_scraped'' @ '': '' @ str_int (total_posts_scraped st),
         quote ''last_update'' @ '': '' @
           (case last_update st of None \<Rightarrow> ''null'' | Some t \<Rightarrow> quote t)] @
        (case current_batch_start st of None \<Rightarrow> []
         | Some b \<Rightarrow> [quote ''current_batch_start'' @ '': '' @ str_int b]))
     @ [newline] @ ''}''"

text \<open>
  What the state file holds: nothing (no file), the whole text of a state, or the first
  \<open>n\<close> characters of the text of a state. Fewer characters than the whole text are
  not a JSON document, and \<^verbatim>\<open>json.load\<close> rejects them.
\<close>

datatype state_file = NoFile | Intact pstate | Partial pstate nat

text \<open>
  How an \<^verbatim>\<open>open\<close> followed by writes ends: the writes complete; \<^verbatim>\<open>open\<close> raises and
  the file is not touched; or the file is opened (and so emptied, when opened for
  writing) and an exception is raised after \<open>n\<close> characters of the text have reached
  the file, all of the text when \<open>n\<close> is not less than its length.
\<close>

datatype io_outcome = Completes | OpenFails | WriteFails nat

text \<open>
  The two queries sent to \<^verbatim>\<open>/posts.json\<close>: \<^verbatim>\<open>limit=1&page=1\<close>, and
  \<^verbatim>\<open>tags=id:min..max\<close> with a limit and a page. Either \<^verbatim>\<open>requests.get\<close> raises (no
  connection, no answer within the timeout), or there is an answer with a status code
  and a body. A body is not JSON, or it decodes to a number, \<^verbatim>\<open>true\<close>, \<^verbatim>\<open>false\<close> or
  \<^verbatim>\<open>null\<close> (for which \<^verbatim>\<open>len\<close> raises), or it decodes to an array of records. A
  body that decodes to an object or a string, which the code would hand on as it
  is, is outside the contract of the upstream and has no value here.
\<close>

datatype request = GetNewest | GetRange int int int int

datatype body = NotJson | JsonScalar | JsonArray "post list"

datatype response = NoResponse | Response nat body

text \<open>
  The environment of a run. \<open>http e n\<close> answers the request issued after \<open>n\<close> earlier
  ones, \<open>now_iso e n\<close> is \<^verbatim>\<open>datetime.now().isoformat()\<close> at the \<open>n\<close>-th save,
  \<open>state_io e n\<close> and \<open>output_io e n\<close> say how the \<open>n\<close>-th write of the state file and
  of the output file ends.
\<close>

record env =
  http :: "nat \<Rightarrow> request \<Rightarrow> response"
  now_iso :: "nat \<Rightarrow> string"
  state_io :: "nat \<Rightarrow> io_outcome"
  output_io :: "nat \<Rightarrow> io_outcome"

record config =
  posts_per_page :: int
  batch_size :: int

text \<open>\<^verbatim>\<open>__init__\<close>: the page size is capped at 200, the batch size is taken as given.\<close>

definition make_config :: "int \<Rightarrow> int \<Rightarrow> config" where
  "make_config ppp bs = \<lparr>posts_per_page = min ppp 200, batch_size = bs\<rparr>"

text \<open>
  The calls that reach the outside, in the order they happen: the query for the newest
  id with its result, a page fetch (window, page, records returned), an append (with
  \<^verbatim>\<open>self.state\<close> at the moment of the call), a save (the state handed to
  \<^verbatim>\<open>json.dump\<close>), a \<^verbatim>\<open>time.sleep\<close>, and the log line that announces a window
  (\<^verbatim>\<open>Processing batch: IDs a to b\<close>).
\<close>

datatype event = Newest "int option" | Fetch int int int "post list"
  | Append "post list" pstate | Save pstate | Sleep | Window int int

record world =
  state :: pstate
  state_file :: state_file
  output_file :: string
  requests :: nat
  saves :: nat
  appends :: nat
  trace :: "event list"

subsection \<open>Progress store\<close>

definition load_state :: "state_file \<Rightarrow> pstate" where
  "load_state f = (case f of NoFile \<Rightarrow> default_state | Intact st \<Rightarrow> st
     | Partial st n \<Rightarrow> (if n < length (state_text st) then default_state else st))"

definition save_state :: "env \<Rightarrow> world \<Rightarrow> world" where
  "save_state e w =
     (let st = (state w)\<lparr>last_update := Some (now_iso e (saves w))\<rparr>
      in w\<lparr>state := st,
           state_file := (case state_io e (saves w) of
                            Completes \<Rightarrow> Intact st
                          | OpenFails \<Rightarrow> state_file w
                          | WriteFails n \<Rightarrow>
                              (if n < length (state_text st) then Partial st n else Intact st)),
           saves := Suc (saves w),
           trace := trace w @ [Save st]\<rparr>)"

text \<open>A new \<^verbatim>\<open>DanbooruScraper\<close> object: the state is loaded from the state file.\<close>

definition start_process :: "world \<Rightarrow> world" where
  "start_process w = w\<lparr>state := load_state (state_file w)\<rparr>"

subsection \<open>Page fetcher\<close>

text \<open>
  The body of the \<^verbatim>\<open>try\<close> blocks of both queries, up to the decoded list: an
  exception of \<^verbatim>\<open>requests.get\<close> is caught and gives the empty list;
  \<^verbatim>\<open>raise_for_status\<close> raises for the status codes from 400 to 599 and for no other,
  which is caught too; then \<^verbatim>\<open>response.json()\<close> and \<^verbatim>\<open>len\<close> raise or give the
  records.
\<close>

definition records_of :: "response \<Rightarrow> post list" where
  "records_of r =
     (case r of
        NoResponse \<Rightarrow> []
      | Response status b \<Rightarrow>
          (if 400 \<le> status \<and> status < 600 then []
           else (case b of NotJson \<Rightarrow> [] | JsonScalar \<Rightarrow> [] | JsonArray ps \<Rightarrow> ps)))"

definition get_highest_post_id :: "env \<Rightarrow> world \<Rightarrow> int option \<times> world" where
  "get_highest_post_id e w =
     (let highest = (case records_of (http e (requests w) GetNewest) of
                       [] \<Rightarrow> None | p # ps \<Rightarrow> Some (post_id p))
      in (highest, w\<lparr>requests := Suc (requests w), trace := trace w @ [Newest highest]\<rparr>))"

definition fetch_posts_by_id_range ::
  "config \<Rightarrow> env \<Rightarrow> int \<Rightarrow> int \<Rightarrow> int \<Rightarrow> world \<Rightarrow> post list \<times> world" where
  "fetch_posts_by_id_range c e min_id max_id page w =
     (let posts = records_of (http e (requests w) (GetRange min_id max_id (posts_per_page c) page))
      in (posts, w\<lparr>requests := Suc (requests w),
                   trace := trace w @ [Fetch min_id max_id page posts]\<rparr>))"

subsection \<open>Record sink\<close>

definition append_posts_to_file :: "env \<Rightarrow> post list \<Rightarrow> world \<Rightarrow> world" where
  "append_posts_to_file e posts w =
     (let txt = concat (map post_line posts)
      in w\<lparr>output_file := (case output_io e (appends w) of
                             Completes \<Rightarrow> output_file w @ txt
                           | OpenFails \<Rightarrow> output_file w
                           | WriteFails n \<Rightarrow> output_file w @ take n txt),
           appends := Suc (appends w),
           trace := trace w @ [Append posts (state w)]\<rparr>)"

subsection \<open>Range scanner\<close>

definition max_pages :: int where
  "max_pages = 1000"

definition sleep :: "world \<Rightarrow> world" where
  "sleep w = w\<lparr>trace := trace w @ [Sleep]\<rparr>"

text \<open>
  The statements of the loop body between the append and the save: the records are
  counted and the largest id of the page is kept if it is larger than the one known.
\<close>

definition record_page :: "post list \<Rightarrow> pstate \<Rightarrow> pstate" where
  "record_page posts st =
     (let st1 = st\<lparr>total_posts_scraped := total_posts_scraped st + int (length posts)\<rparr>;
          max_post_id = fold max (map post_id (tl posts)) (post_id (hd posts))
      in if max_post_id > last_processed_id st1
         then st1\<lparr>last_processed_id := max_post_id\<rparr> else st1)"

definition count_page :: "post list \<Rightarrow> world \<Rightarrow> world" where
  "count_page posts w = w\<lparr>state := record_page posts (state w)\<rparr>"

text \<open>
  The \<^verbatim>\<open>while page <= max_pages\<close> loop of \<^verbatim>\<open>_scrape_id_range\<close>, from a given page and
  count; the result is the count returned and the world left behind.
\<close>

function scrape_pages ::
  "config \<Rightarrow> env \<Rightarrow> int \<Rightarrow> int \<Rightarrow> int \<Rightarrow> int \<Rightarrow> world \<Rightarrow> int \<times> world" where
  "scrape_pages c e min_id max_id page posts_scraped w =
     (if page \<le> max_pages then
        (case fetch_posts_by_id_range c e min_id max_id page w of
           ([], w1) \<Rightarrow> (posts_scraped, w1)
         | (p # ps, w1) \<Rightarrow>
             (let posts = p # ps;
                  w2 = append_posts_to_file e posts w1;
                  posts_scraped' = posts_scraped + int (length posts);
                  w3 = save_state e (count_page posts w2)
              in if int (length posts) < posts_per_page c then (posts_scraped', w3)
                 else scrape_pages c e min_id max_id (page + 1) posts_scraped' (sleep w3)))
      else (posts_scraped, w))"
  by pat_completeness auto
termination
  by (relation "measure (\<lambda>(c, e, min_id, max_id, page, n, w). nat (max_pages + 1 - page))") auto

declare scrape_pages.simps [simp del]

definition scrape_id_range :: "config \<Rightarrow> env \<Rightarrow> int \<Rightarrow> int \<Rightarrow> world \<Rightarrow> int \<times> world" where
  "scrape_id_range c e min_id max_id w = scrape_pages c e min_id max_id 1 0 w"

subsection \<open>Batch driver\<close>

text \<open>One turn of the \<^verbatim>\<open>while current_min_id <= highest_id\<close> loop of \<^verbatim>\<open>scrape_all\<close>.\<close>

definition window_end :: "config \<Rightarrow> int \<Rightarrow> int \<Rightarrow> int" where
  "window_end c highest_id current_min_id = min (current_min_id + batch_size c - 1) highest_id"

definition batch_body :: "config \<Rightarrow> env \<Rightarrow> int \<Rightarrow> int \<Rightarrow> world \<Rightarrow> world" where
  "batch_body c e highest_id current_min_id w =
     (let current_max_id = window_end c highest_id current_min_id;
          w1 = w\<lparr>trace := trace w @ [Window current_min_id current_max_id]\<rparr>;
          (batch_posts, w2) = scrape_id_range c e current_min_id current_max_id w1;
          w3 = w2\<lparr>state := (state w2)\<lparr>current_batch_start := Some (current_max_id + 1)\<rparr>\<rparr>
      in sleep (save_state e w3))"

text \<open>
  The loop itself. Nothing in the code bounds the number of turns, so the result is an
  option: \<open>None\<close> is a loop that never ends.
\<close>

partial_function (option) batch_loop ::
  "config \<Rightarrow> env \<Rightarrow> int \<Rightarrow> int \<Rightarrow> world \<Rightarrow> world option" where
  "batch_loop c e highest_id current_min_id w =
     (if current_min_id \<le> highest_id
      then batch_loop c e highest_id (window_end c highest_id current_min_id + 1)
             (batch_body c e highest_id current_min_id w)
      else Some w)"

definition scrape_all :: "config \<Rightarrow> env \<Rightarrow> world \<Rightarrow> world option" where
  "scrape_all c e w =
     (case get_highest_post_id e w of
        (None, w1) \<Rightarrow> Some w1
      | (Some highest_id, w1) \<Rightarrow> batch_loop c e highest_id (checkpoint (state w1)) w1)"

subsection \<open>Auxiliary notions\<close>

text \<open>The number of page fetches in a trace.\<close>

fun fetches :: "event list \<Rightarrow> nat" where
  "fetches [] = 0"
| "fetches (Fetch a b p ps # es) = Suc (fetches es)"
| "fetches (ev # es) = fetches es"

text \<open>
  The pieces of one turn of the pagination loop: the records a fetch returns, the world
  after the fetch, and the world after a non-empty page has been appended, counted and
  saved.
\<close>

definition page_of :: "config \<Rightarrow> env \<Rightarrow> int \<Rightarrow> int \<Rightarrow> int \<Rightarrow> world \<Rightarrow> post list" where
  "page_of c e min_id max_id page w =
     records_of (http e (requests w) (GetRange min_id max_id (posts_per_page c) page))"

definition fetched :: "int \<Rightarrow> int \<Rightarrow> int \<Rightarrow> post list \<Rightarrow> world \<Rightarrow> world" where
  "fetched min_id max_id page posts w =
     w\<lparr>requests := Suc (requests w), trace := trace w @ [Fetch min_id max_id page posts]\<rparr>"

definition process_page :: "env \<Rightarrow> post list \<Rightarrow> world \<Rightarrow> world" where
  "process_page e posts w = save_state e (count_page posts (append_posts_to_file e posts w))"

text \<open>
  A small upstream for the examples: the service holds the records with the given ids,
  answers a range query with the matching ones in ascending order, cut into pages, and
  the query for the newest record with the largest id.
\<close>

definition mk_post :: "int \<Rightarrow> post" where
  "mk_post i = \<lparr>post_id = i, post_before = [], post_after = []\<rparr>"

fun archive :: "int list \<Rightarrow> nat \<Rightarrow> request \<Rightarrow> response" where
  "archive ids n GetNewest = Response 200 (JsonArray (map mk_post (rev (sort ids))))"
| "archive ids n (GetRange lo hi limit page) =
     Response 200 (JsonArray (map mk_post (take (nat limit) (drop (nat ((page - 1) * limit))
       (filter (\<lambda>i. lo \<le> i \<and> i \<le> hi) (sort ids))))))"

definition quiet_env :: "(nat \<Rightarrow> request \<Rightarrow> response) \<Rightarrow> env" where
  "quiet_env h = \<lparr>http = h, now_iso = (\<lambda>n. ''2024-01-01T00:00:00''),
     state_io = (\<lambda>n. Completes), output_io = (\<lambda>n. Completes)\<rparr>"

definition fresh_world :: world where
  "fresh_world = \<lparr>state = default_state, state_file = NoFile, output_file = [],
     requests = 0, saves = 0, appends = 0, trace = []\<rparr>"

text \<open>
  The shape of the trace one call of \<^verbatim>\<open>_scrape_id_range\<close> leaves, from a given page
  and progress state: the loop stops beyond the page ceiling; or a fetch returns nothing;
  or a non-empty page is fetched, appended while the state is still the one before the
  page, and saved with the page counted, after which the loop stops (short page) or
  pauses and goes on with the next page.
\<close>

inductive page_blocks :: "int \<Rightarrow> int \<Rightarrow> int \<Rightarrow> pstate \<Rightarrow> event list \<Rightarrow> bool" where
  ceiling: "max_pages < page \<Longrightarrow> page_blocks lo hi page st []"
| exhausted: "page \<le> max_pages \<Longrightarrow> page_blocks lo hi page st [Fetch lo hi page []]"
| short_page: "page \<le> max_pages \<Longrightarrow> posts \<noteq> [] \<Longrightarrow>
     st' = (record_page posts st)\<lparr>last_update := Some t\<rparr> \<Longrightarrow>
     page_blocks lo hi page st [Fetch lo hi page posts, Append posts st, Save st']"
| full_page: "page \<le> max_pages \<Longrightarrow> posts \<noteq> [] \<Longrightarrow>
     st' = (record_page posts st)\<lparr>last_update := Some t\<rparr> \<Longrightarrow>
     page_blocks lo hi (page + 1) st' es \<Longrightarrow>
     page_blocks lo hi page st (Fetch lo hi page posts # Append posts st # Save st' # Sleep # es)"

code_pred page_blocks .

text \<open>
  A trace is backed from a count \<open>n\<close> of records handed to the sink when every append
  is called with a state that counts exactly the records handed over before it, and
  every save writes a state that counts exactly the records handed over so far.
\<close>

fun backed :: "int \<Rightarrow> event list \<Rightarrow> bool" where
  "backed n [] = True"
| "backed n (Append posts st # es) =
     (total_posts_scraped st = n \<and> backed (n + int (length posts)) es)"
| "backed n (Save st # es) = (total_posts_scraped st = n \<and> backed n es)"
| "backed n (ev # es) = backed n es"

text \<open>The windows announced in a trace.\<close>

fun windows_of :: "event list \<Rightarrow> (int \<times> int) list" where
  "windows_of [] = []"
| "windows_of (Window a b # es) = (a, b) # windows_of es"
| "windows_of (ev # es) = windows_of es"

text \<open>
  The windows as the specification of the batch driver words them, for a batch size of
  at least 1: while \<open>window_start \<le> max_id\<close>, the window from \<open>window_start\<close> to
  \<open>min (window_start + batch_size - 1) max_id\<close>, then on from one past its end.
\<close>

function spec_windows :: "int \<Rightarrow> int \<Rightarrow> int \<Rightarrow> (int \<times> int) list" where
  "spec_windows bs max_id window_start =
     (if window_start \<le> max_id \<and> 1 \<le> bs
      then (window_start, min (window_start + bs - 1) max_id)
             # spec_windows bs max_id (min (window_start + bs - 1) max_id + 1)
      else [])"
  by pat_completeness auto
termination
  by (relation "measure (\<lambda>(bs, max_id, window_start). nat (max_id + 1 - window_start))") auto

declare spec_windows.simps [simp del]

text \<open>
  The first \<open>k\<close> turns of the driver's loop (fewer when the loop ends earlier): the
  value of \<^verbatim>\<open>current_min_id\<close> and the world at that point of a run, also of a run
  that never ends or is cut short.
\<close>

fun batch_turns :: "nat \<Rightarrow> config \<Rightarrow> env \<Rightarrow> int \<Rightarrow> int \<Rightarrow> world \<Rightarrow> int \<times> world" where
  "batch_turns 0 c e highest_id current_min_id w = (current_min_id, w)"
| "batch_turns (Suc k) c e highest_id current_min_id w =
     (if current_min_id \<le> highest_id
      then batch_turns k c e highest_id (window_end c highest_id current_min_id + 1)
             (batch_body c e highest_id current_min_id w)
      else (current_min_id, w))"

text \<open>The number of records handed to the sink by the end of a trace, counted from \<open>n\<close>.\<close>

fun handed :: "int \<Rightarrow> event list \<Rightarrow> int" where
  "handed n [] = n"
| "handed n (Append posts st # es) = handed (n + int (length posts)) es"
| "handed n (ev # es) = handed n es"

text \<open>The world after the query for the newest id.\<close>

definition asked_newest :: "int option \<Rightarrow> world \<Rightarrow> world" where
  "asked_newest highest w = w\<lparr>requests := Suc (requests w), trace := trace w @ [Newest highest]\<rparr>"

text \<open>
  One process, as \<^verbatim>\<open>main\<close> starts it: a new scraper object loads the state file, then
  \<^verbatim>\<open>scrape_all\<close> runs. A sequence of runs over the same files, each with its
  configuration and its environment.
\<close>

definition run_process :: "config \<Rightarrow> env \<Rightarrow> world \<Rightarrow> world option" where
  "run_process c e w = scrape_all c e (start_process w)"

fun runs :: "(config \<times> env) list \<Rightarrow> world \<Rightarrow> world option" where
  "runs [] w = Some w"
| "runs ((c, e) # rs) w = (case run_process c e w of None \<Rightarrow> None | Some w' \<Rightarrow> runs rs w')"

text \<open>The checkpoint a new process would start from.\<close>

definition persisted :: "world \<Rightarrow> int" where
  "persisted w = checkpoint (load_state (state_file w))"

text \<open>An environment in which no write of the state file stops midway.\<close>

definition never_torn :: "env \<Rightarrow> bool" where
  "never_torn e = (\<forall>n. case state_io e n of WriteFails m \<Rightarrow> False | _ \<Rightarrow> True)"

text \<open>
  For the examples: an upstream that answers every request with the status 503, and
  one that answers with the status 300 and a body holding one record; an environment
  in which the write of the state file stops right after \<^verbatim>\<open>open\<close>, and a world in
  which the first window has been scraped and saved.
\<close>

definition unavailable_env :: env where
  "unavailable_env = quiet_env (\<lambda>n q. Response 503 NotJson)"

definition choices_env :: env where
  "choices_env = quiet_env (\<lambda>n q. Response 300 (JsonArray [mk_post 5]))"

definition torn_env :: env where
  "torn_env = (quiet_env (archive [250]))\<lparr>state_io := (\<lambda>n. WriteFails 0)\<rparr>"

definition late_env :: env where
  "late_env = (quiet_env (archive [250]))\<lparr>state_io := (\<lambda>n. WriteFails 1000)\<rparr>"

definition resumed_world :: world where
  "resumed_world = fresh_world
     \<lparr>state := default_state\<lparr>last_processed_id := 100, total_posts_scraped := 100,
                              current_batch_start := Some 101\<rparr>,
      state_file := Intact (default_state\<lparr>last_processed_id := 100, total_posts_scraped := 100,
                              current_batch_start := Some 101\<rparr>)\<rparr>"

text \<open>
  The grammar of JSON texts (RFC 8259), on which "a valid JSON value" rests: white
  space, numbers (an optional minus, an integer part without leading zeros, an optional
  fraction, an optional exponent), strings (characters from 0x20 on other than the
  quote and the backslash, and escapes), the three literal names, arrays and objects.
\<close>

definition ws_char :: "char \<Rightarrow> bool" where
  "ws_char ch = (ch \<in> set [CHR 0x20, CHR 0x09, CHR 0x0A, CHR 0x0D])"

definition is_ws :: "string \<Rightarrow> bool" where
  "is_ws s = list_all ws_char s"

definition is_digit :: "char \<Rightarrow> bool" where
  "is_digit ch = (ch \<in> set ''0123456789'')"

definition is_hex :: "char \<Rightarrow> bool" where
  "is_hex ch = (ch \<in> set ''0123456789abcdefABCDEF'')"

definition digits :: "string \<Rightarrow> bool" where
  "digits s = (s \<noteq> [] \<and> list_all is_digit s)"

definition json_int :: "string \<Rightarrow> bool" where
  "json_int s = (s = ''0'' \<or> (digits s \<and> hd s \<noteq> CHR ''0''))"

definition json_frac :: "string \<Rightarrow> bool" where
  "json_frac s = (case s of [] \<Rightarrow> True | ch # ds \<Rightarrow> ch = CHR ''.'' \<and> digits ds)"

definition json_exp :: "string \<Rightarrow> bool" where
  "json_exp s =
     (case s of
        [] \<Rightarrow> True
      | ch # r \<Rightarrow> (ch = CHR ''e'' \<or> ch = CHR ''E'') \<and>
          (digits r \<or> (case r of [] \<Rightarrow> False
                        | sg # ds \<Rightarrow> (sg = CHR ''+'' \<or> sg = CHR ''-'') \<and> digits ds)))"

definition json_number :: "string \<Rightarrow> bool" where
  "json_number s =
     (\<exists>sg whole frac ex. s = sg @ whole @ frac @ ex \<and> (sg = [] \<or> sg = ''-'')
        \<and> json_int whole \<and> json_frac frac \<and> json_exp ex)"

inductive json_chars :: "string \<Rightarrow> bool" where
  chars_end: "json_chars []"
| chars_plain: "32 \<le> (of_char ch :: nat) \<Longrightarrow> ch \<noteq> CHR 0x22 \<Longrightarrow> ch \<noteq> CHR 0x5C \<Longrightarrow>
     json_chars s \<Longrightarrow> json_chars (ch # s)"
| chars_escape: "ch \<in> set [CHR 0x22, CHR 0x5C, CHR ''/'', CHR ''b'', CHR ''f'', CHR ''n'',
       CHR ''r'', CHR ''t''] \<Longrightarrow>
     json_chars s \<Longrightarrow> json_chars (CHR 0x5C # ch # s)"
| chars_unicode: "is_hex h1 \<Longrightarrow> is_hex h2 \<Longrightarrow> is_hex h3 \<Longrightarrow> is_hex h4 \<Longrightarrow>
     json_chars s \<Longrightarrow> json_chars (CHR 0x5C # CHR ''u'' # h1 # h2 # h3 # h4 # s)"

definition json_string :: "string \<Rightarrow> bool" where
  "json_string s = (\<exists>body. s = CHR 0x22 # body @ [CHR 0x22] \<and> json_chars body)"

inductive json_value :: "string \<Rightarrow> bool"
  and json_elements :: "string \<Rightarrow> bool"
  and json_members :: "string \<Rightarrow> bool" where
  value_null: "json_value ''null''"
| value_true: "json_value ''true''"
| value_false: "json_value ''false''"
| value_number: "json_number s \<Longrightarrow> json_value s"
| value_string: "json_string s \<Longrightarrow> json_value s"
| value_empty_array: "is_ws w \<Longrightarrow> json_value (CHR ''['' # w @ '']'')"
| value_array: "json_elements es \<Longrightarrow> json_value (CHR ''['' # es @ '']'')"
| value_empty_object: "is_ws w \<Longrightarrow> json_value (CHR ''{'' # w @ ''}'')"
| value_object: "json_members ms \<Longrightarrow> json_value (CHR ''{'' # ms @ ''}'')"
| elements_last: "is_ws w1 \<Longrightarrow> json_value v \<Longrightarrow> is_ws w2 \<Longrightarrow> json_elements (w1 @ v @ w2)"
| elements_more: "is_ws w1 \<Longrightarrow> json_value v \<Longrightarrow> is_ws w2 \<Longrightarrow> json_elements es \<Longrightarrow>
     json_elements (w1 @ v @ w2 @ CHR '','' # es)"
| members_last: "is_ws w1 \<Longrightarrow> json_string k \<Longrightarrow> is_ws w2 \<Longrightarrow> is_ws w3 \<Longrightarrow>
     json_value v \<Longrightarrow> is_ws w4 \<Longrightarrow>
     json_members (w1 @ k @ w2 @ CHR '':'' # w3 @ v @ w4)"
| members_more: "is_ws w1 \<Longrightarrow> json_string k \<Longrightarrow> is_ws w2 \<Longrightarrow> is_ws w3 \<Longrightarrow>
     json_value v \<Longrightarrow> is_ws w4 \<Longrightarrow> json_members ms \<Longrightarrow>
     json_members (w1 @ k @ w2 @ CHR '':'' # w3 @ v @ w4 @ CHR '','' # ms)"

text \<open>
  The characters a JSON value can end with, a text without line ends, and the values
  in which every float is finite.
\<close>

definition value_end :: "char \<Rightarrow> bool" where
  "value_end ch = (is_digit ch \<or> ch \<in> set [CHR ''e'', CHR ''l'', CHR '']'', CHR ''}'', CHR 0x22])"

definition single_line :: "string \<Rightarrow> bool" where
  "single_line s = list_all (\<lambda>ch. ch \<noteq> newline \<and> ch \<noteq> carriage_return) s"

fun finite_json :: "json \<Rightarrow> bool" where
  "finite_json (JFloat x) = (case x of Finite negative whole frac ex \<Rightarrow> True | _ \<Rightarrow> False)"
| "finite_json (JArr vs) = list_all finite_json vs"
| "finite_json (JObj kvs) = list_all (\<lambda>kv. finite_json (snd kv)) kvs"
| "finite_json v = True"

text \<open>
  A sequence of calls of \<^verbatim>\<open>_append_posts_to_file\<close>, the text of one record, and a
  record with a float beyond the range of the doubles (\<^verbatim>\<open>"score": 1e999\<close> in the body).
\<close>

definition overflow_post :: post where
  "overflow_post = \<lparr>post_id = 5, post_before = [], post_after = [(''score'', JFloat PosInf)]\<rparr>"

fun append_all :: "env \<Rightarrow> post list list \<Rightarrow> world \<Rightarrow> world" where
  "append_all e [] w = w"
| "append_all e (posts # rest) w = append_all e rest (append_posts_to_file e posts w)"

definition post_text :: "post \<Rightarrow> string" where
  "post_text p = json_dumps (post_json p)"

section \<open>Properties\<close>

subsection \<open>The steps of the pagination loop\<close>

lemma fetches_append [simp]: "fetches (xs @ ys) = fetches xs + fetches ys"
  by (induction xs rule: fetches.induct) auto

lemma fetch_eq:
  "fetch_posts_by_id_range c e lo hi page w =
     (page_of c e lo hi page w, fetched lo hi page (page_of c e lo hi page w) w)"
  by (simp add: fetch_posts_by_id_range_def page_of_def fetched_def Let_def)

lemma fetched_fields [simp]:
  "state (fetched lo hi page posts w) = state w"
  "state_file (fetched lo hi page posts w) = state_file w"
  "output_file (fetched lo hi page posts w) = output_file w"
  "requests (fetched lo hi page posts w) = Suc (requests w)"
  "saves (fetched lo hi page posts w) = saves w"
  "appends (fetched lo hi page posts w) = appends w"
  "trace (fetched lo hi page posts w) = trace w @ [Fetch lo hi page posts]"
  by (simp_all add: fetched_def)

lemma sleep_fields [simp]:
  "state (sleep w) = state w"
  "state_file (sleep w) = state_file w"
  "output_file (sleep w) = output_file w"
  "requests (sleep w) = requests w"
  "saves (sleep w) = saves w"
  "appends (sleep w) = appends w"
  "trace (sleep w) = trace w @ [Sleep]"
  by (simp_all add: sleep_def)

lemma state_text_nonempty [simp]: "state_text st \<noteq> []"
  by (simp add: state_text_def)

lemma save_state_fields [simp]:
  "state (save_state e w) = (state w)\<lparr>last_update := Some (now_iso e (saves w))\<rparr>"
  "state_file (save_state e w) =
     (case state_io e (saves w) of
        Completes \<Rightarrow> Intact ((state w)\<lparr>last_update := Some (now_iso e (saves w))\<rparr>)
      | OpenFails \<Rightarrow> state_file w
      | WriteFails n \<Rightarrow>
          (if n < length (state_text ((state w)\<lparr>last_update := Some (now_iso e (saves w))\<rparr>))
           then Partial ((state w)\<lparr>last_update := Some (now_iso e (saves w))\<rparr>) n
           else Intact ((state w)\<lparr>last_update := Some (now_iso e (saves w))\<rparr>)))"
  "output_file (save_state e w) = output_file w"
  "requests (save_state e w) = requests w"
  "saves (save_state e w) = Suc (saves w)"
  "appends (save_state e w) = appends w"
  "trace (save_state e w) = trace w @ [Save ((state w)\<lparr>last_update := Some (now_iso e (saves w))\<rparr>)]"
  by (simp_all add: save_state_def Let_def)

lemma append_fields [simp]:
  "state (append_posts_to_file e posts w) = state w"
  "state_file (append_posts_to_file e posts w) = state_file w"
  "output_file (append_posts_to_file e posts w) =
     (case output_io e (appends w) of
        Completes \<Rightarrow> output_file w @ concat (map post_line posts)
      | OpenFails \<Rightarrow> output_file w
      | WriteFails n \<Rightarrow> output_file w @ take n (concat (map post_line posts)))"
  "requests (append_posts_to_file e posts w) = requests w"
  "saves (append_posts_to_file e posts w) = saves w"
  "appends (append_posts_to_file e posts w) = Suc (appends w)"
  "trace (append_posts_to_file e posts w) = trace w @ [Append posts (state w)]"
  by (simp_all add: append_posts_to_file_def Let_def)

lemma count_page_fields [simp]:
  "state (count_page posts w) = record_page posts (state w)"
  "state_file (count_page posts w) = state_file w"
  "output_file (count_page posts w) = output_file w"
  "requests (count_page posts w) = requests w"
  "saves (count_page posts w) = saves w"
  "appends (count_page posts w) = appends w"
  "trace (count_page posts w) = trace w"
  by (simp_all add: count_page_def)

lemma process_page_fields [simp]:
  "state (process_page e posts w) =
     (record_page posts (state w))\<lparr>last_update := Some (now_iso e (saves w))\<rparr>"
  "output_file (process_page e posts w) =
     (case output_io e (appends w) of
        Completes \<Rightarrow> output_file w @ concat (map post_line posts)
      | OpenFails \<Rightarrow> output_file w
      | WriteFails n \<Rightarrow> output_file w @ take n (concat (map post_line posts)))"
  "requests (process_page e posts w) = requests w"
  "saves (process_page e posts w) = Suc (saves w)"
  "appends (process_page e posts w) = Suc (appends w)"
  "trace (process_page e posts w) =
     trace w @ [Append posts (state w),
                Save ((record_page posts (state w))\<lparr>last_update := Some (now_iso e (saves w))\<rparr>)]"
  by (simp_all add: process_page_def)

lemma record_page_fields [simp]:
  "total_posts_scraped (record_page posts st) = total_posts_scraped st + int (length posts)"
  "current_batch_start (record_page posts st) = current_batch_start st"
  "last_update (record_page posts st) = last_update st"
  by (simp_all add: record_page_def Let_def)

lemma scrape_pages_unfold:
  "scrape_pages c e lo hi page n w =
     (if page \<le> max_pages then
        (if page_of c e lo hi page w = [] then (n, fetched lo hi page [] w)
         else if int (length (page_of c e lo hi page w)) < posts_per_page c
           then (n + int (length (page_of c e lo hi page w)),
                 process_page e (page_of c e lo hi page w)
                   (fetched lo hi page (page_of c e lo hi page w) w))
           else scrape_pages c e lo hi (page + 1) (n + int (length (page_of c e lo hi page w)))
                  (sleep (process_page e (page_of c e lo hi page w)
                     (fetched lo hi page (page_of c e lo hi page w) w))))
      else (n, w))"
  by (subst scrape_pages.simps)
     (simp add: fetch_eq process_page_def Let_def split: list.split)

lemma scrape_pages_cases [case_names stop empty short more]:
  assumes "\<And>page n w. \<not> page \<le> max_pages \<Longrightarrow> P page n w (n, w)"
    and "\<And>page n w. page \<le> max_pages \<Longrightarrow> page_of c e lo hi page w = [] \<Longrightarrow>
           P page n w (n, fetched lo hi page [] w)"
    and "\<And>page n w posts. page \<le> max_pages \<Longrightarrow> posts = page_of c e lo hi page w \<Longrightarrow>
           posts \<noteq> [] \<Longrightarrow> int (length posts) < posts_per_page c \<Longrightarrow>
           P page n w (n + int (length posts), process_page e posts (fetched lo hi page posts w))"
    and "\<And>page n w posts r. page \<le> max_pages \<Longrightarrow> posts = page_of c e lo hi page w \<Longrightarrow>
           posts \<noteq> [] \<Longrightarrow> \<not> int (length posts) < posts_per_page c \<Longrightarrow>
           P (page + 1) (n + int (length posts))
             (sleep (process_page e posts (fetched lo hi page posts w))) r \<Longrightarrow>
           P page n w r"
  shows "P page n w (scrape_pages c e lo hi page n w)"
proof (induction "nat (max_pages + 1 - page)" arbitrary: page n w)
  case 0
  then have "\<not> page \<le> max_pages" by simp
  then show ?case using assms(1) by (simp add: scrape_pages_unfold [of c e lo hi page])
next
  case (Suc k)
  then have le: "page \<le> max_pages" by simp
  let ?posts = "page_of c e lo hi page w"
  show ?case
  proof (cases "?posts = []")
    case True
    with le assms(2) [of page w n] show ?thesis
      by (simp add: scrape_pages_unfold [of c e lo hi page])
  next
    case ne: False
    show ?thesis
    proof (cases "int (length ?posts) < posts_per_page c")
      case True
      with le ne assms(3) [of page ?posts w n] show ?thesis
        by (simp add: scrape_pages_unfold [of c e lo hi page])
    next
      case False
      from Suc.hyps(2) have "k = nat (max_pages + 1 - (page + 1))" by simp
      from Suc.hyps(1) [OF this]
      have "P (page + 1) (n + int (length ?posts))
              (sleep (process_page e ?posts (fetched lo hi page ?posts w)))
              (scrape_pages c e lo hi (page + 1) (n + int (length ?posts))
                 (sleep (process_page e ?posts (fetched lo hi page ?posts w))))" .
      from assms(4) [OF le refl ne False this] le ne False show ?thesis
        by (simp add: scrape_pages_unfold [of c e lo hi page])
    qed
  qed
qed

lemma scrape_pages_fetch_bound:
  "requests (snd (scrape_pages c e lo hi page n w)) \<le> requests w + nat (max_pages + 1 - page)
   \<and> fetches (trace (snd (scrape_pages c e lo hi page n w)))
       \<le> fetches (trace w) + nat (max_pages + 1 - page)"
  by (induction page n w rule: scrape_pages_cases [of _ c e lo hi]) auto


lemma scrape_pages_all_full:
  assumes "\<And>k p. records_of (http e k (GetRange lo hi (posts_per_page c) p)) \<noteq> []
             \<and> \<not> int (length (records_of (http e k (GetRange lo hi (posts_per_page c) p))))
                   < posts_per_page c"
  shows "fetches (trace (snd (scrape_pages c e lo hi page n w)))
           = fetches (trace w) + nat (max_pages + 1 - page)"
proof (induction page n w rule: scrape_pages_cases [of _ c e lo hi])
  case (stop page n w)
  then show ?case by simp
next
  case (empty page n w)
  with assms [of "requests w" page] show ?case by (simp add: page_of_def)
next
  case (short page n w posts)
  with assms [of "requests w" page] show ?case by (simp add: page_of_def)
next
  case (more page n w posts r)
  then show ?case by simp
qed

subsection \<open>Page fetcher: failures are empty pages\<close>

text \<open>
  C4, as amended. Whatever the window and the page, when \<^verbatim>\<open>requests.get\<close> raises
  (transport failure or timeout), when the answer has a status from 400 to 599, or when
  its body is not JSON or decodes to a number, \<^verbatim>\<open>true\<close>, \<^verbatim>\<open>false\<close> or \<^verbatim>\<open>null\<close>,
  the fetch returns the empty list: there is no error result, the
  only effects are the request itself and its entry in the trace, and result and world
  are those of the same fetch against an upstream that answers this request with an
  empty array. An answer with any other status, also one that is not 2xx, is decoded:
  when its body is an array of records, these are returned. As stated, for every status
  that is not 2xx, the claim fails: the records of an answer with status 300 are
  returned.
\<close>

theorem fetch_failure_is_empty_page:
  assumes "http e (requests w) (GetRange min_id max_id (posts_per_page c) page) = r"
  shows "(r = NoResponse \<or> (r = Response status b \<and> 400 \<le> status \<and> status < 600)
            \<or> r = Response status NotJson \<or> r = Response status JsonScalar \<longrightarrow>
          fetch_posts_by_id_range c e min_id max_id page w =
            ([], w\<lparr>requests := Suc (requests w),
                   trace := trace w @ [Fetch min_id max_id page []]\<rparr>)
          \<and> fetch_posts_by_id_range c e min_id max_id page w =
              fetch_posts_by_id_range c
                (e\<lparr>http := (http e)(requests w := (\<lambda>q. Response 200 (JsonArray [])))\<rparr>)
                min_id max_id page w)
       \<and> (r = Response status (JsonArray ps) \<and> \<not> (400 \<le> status \<and> status < 600) \<longrightarrow>
          fetch_posts_by_id_range c e min_id max_id page w =
            (ps, w\<lparr>requests := Suc (requests w),
                   trace := trace w @ [Fetch min_id max_id page ps]\<rparr>))"
  using assms by (auto simp: fetch_posts_by_id_range_def records_of_def)

theorem fetch_failure_is_empty_page_witness:
  "http unavailable_env (requests fresh_world)
      (GetRange 1 100 (posts_per_page (make_config 50 100)) 1) = Response 503 NotJson
   \<and> fetch_posts_by_id_range (make_config 50 100) unavailable_env 1 100 1 fresh_world
     = ([], fresh_world\<lparr>requests := 1, trace := [Fetch 1 100 1 []]\<rparr>)"
proof -
  have h: "http unavailable_env (requests fresh_world)
      (GetRange 1 100 (posts_per_page (make_config 50 100)) 1) = Response 503 NotJson"
    by (simp add: unavailable_env_def quiet_env_def)
  from fetch_failure_is_empty_page [OF h, of 503 NotJson] h show ?thesis
    by (simp add: fresh_world_def)
qed

theorem status_300_records_are_returned:
  "http choices_env (requests fresh_world)
      (GetRange 1 100 (posts_per_page (make_config 50 100)) 1)
     = Response 300 (JsonArray [mk_post 5])
   \<and> fetch_posts_by_id_range (make_config 50 100) choices_env 1 100 1 fresh_world
     = ([mk_post 5], fresh_world\<lparr>requests := 1, trace := [Fetch 1 100 1 [mk_post 5]]\<rparr>)
   \<and> fst (fetch_posts_by_id_range (make_config 50 100) choices_env 1 100 1 fresh_world) \<noteq> []"
  by (simp add: fetch_posts_by_id_range_def records_of_def choices_env_def quiet_env_def
      fresh_world_def Let_def)

subsection \<open>Range scanner: empty window, short page, page ceiling\<close>

text \<open>
  C6. When the first fetch of a window returns no record, \<^verbatim>\<open>_scrape_id_range\<close> returns 0,
  the output file is not written (no append is attempted), and the progress state, in
  memory and in the state file, is what it was; the one effect is the fetch.
\<close>

theorem empty_window_changes_nothing:
  assumes "records_of (http e (requests w) (GetRange lo hi (posts_per_page c) 1)) = []"
  shows "fst (scrape_id_range c e lo hi w) = 0
       \<and> output_file (snd (scrape_id_range c e lo hi w)) = output_file w
       \<and> appends (snd (scrape_id_range c e lo hi w)) = appends w
       \<and> state (snd (scrape_id_range c e lo hi w)) = state w
       \<and> state_file (snd (scrape_id_range c e lo hi w)) = state_file w
       \<and> saves (snd (scrape_id_range c e lo hi w)) = saves w
       \<and> trace (snd (scrape_id_range c e lo hi w)) = trace w @ [Fetch lo hi 1 []]"
  using assms
  by (simp add: scrape_id_range_def scrape_pages_unfold [of c e lo hi 1] max_pages_def
      page_of_def)

theorem empty_window_changes_nothing_witness:
  "records_of (http (quiet_env (archive [150, 160])) (requests fresh_world)
      (GetRange 1 100 (posts_per_page (make_config 50 100)) 1)) = []
   \<and> fst (scrape_id_range (make_config 50 100) (quiet_env (archive [150, 160])) 1 100
        fresh_world) = 0
   \<and> output_file (snd (scrape_id_range (make_config 50 100) (quiet_env (archive [150, 160]))
        1 100 fresh_world)) = []
   \<and> state (snd (scrape_id_range (make_config 50 100) (quiet_env (archive [150, 160]))
        1 100 fresh_world)) = default_state
   \<and> trace (snd (scrape_id_range (make_config 50 100) (quiet_env (archive [150, 160]))
        1 100 fresh_world)) = [Fetch 1 100 1 []]"
proof -
  have h: "records_of (http (quiet_env (archive [150, 160])) (requests fresh_world)
      (GetRange 1 100 (posts_per_page (make_config 50 100)) 1)) = []"
    by (simp add: quiet_env_def records_of_def)
  from empty_window_changes_nothing [OF h] h show ?thesis
    by (simp add: fresh_world_def)
qed

text \<open>
  C5. When page 1 of a window returns exactly \<open>posts_per_page\<close> records and page 2
  returns some, but fewer than \<open>posts_per_page\<close>, \<^verbatim>\<open>_scrape_id_range\<close> makes exactly two
  fetches and returns: the trace grows by the two pages, each fetched, appended and
  saved, with one pause between them and nothing after the second save.
\<close>

theorem short_second_page_two_fetches:
  assumes p1: "ps1 = records_of (http e (requests w) (GetRange lo hi (posts_per_page c) 1))"
    and p2: "ps2 = records_of (http e (Suc (requests w)) (GetRange lo hi (posts_per_page c) 2))"
    and full: "int (length ps1) = posts_per_page c"
    and short: "ps2 \<noteq> []" "int (length ps2) < posts_per_page c"
  shows "fetches (trace (snd (scrape_id_range c e lo hi w))) = fetches (trace w) + 2
       \<and> requests (snd (scrape_id_range c e lo hi w)) = requests w + 2
       \<and> fst (scrape_id_range c e lo hi w) = int (length ps1) + int (length ps2)
       \<and> (\<exists>st1 st2. trace (snd (scrape_id_range c e lo hi w)) =
            trace w @ [Fetch lo hi 1 ps1, Append ps1 (state w), Save st1, Sleep,
                       Fetch lo hi 2 ps2, Append ps2 st1, Save st2])"
proof -
  from short full have ne1: "ps1 \<noteq> []" by auto
  let ?w1 = "sleep (process_page e ps1 (fetched lo hi 1 ps1 w))"
  have a: "page_of c e lo hi 1 w = ps1" by (simp add: page_of_def p1)
  have b: "page_of c e lo hi 2 ?w1 = ps2" by (simp add: page_of_def p2)
  have r: "scrape_id_range c e lo hi w =
     (int (length ps1) + int (length ps2), process_page e ps2 (fetched lo hi 2 ps2 ?w1))"
    using ne1 full short a b
    by (simp add: scrape_id_range_def scrape_pages_unfold [of c e lo hi 1]
        scrape_pages_unfold [of c e lo hi 2] max_pages_def)
  show ?thesis by (simp add: r)
qed

theorem short_second_page_two_fetches_witness:
  "fetches (trace (snd (scrape_id_range (make_config 2 100) (quiet_env (archive [1, 2, 3]))
      1 100 fresh_world))) = 2
   \<and> fst (scrape_id_range (make_config 2 100) (quiet_env (archive [1, 2, 3])) 1 100 fresh_world)
       = 3"
  using short_second_page_two_fetches [of "[mk_post 1, mk_post 2]"
      "quiet_env (archive [1, 2, 3])" fresh_world 1 100 "make_config 2 100" "[mk_post 3]"]
  by (simp add: quiet_env_def fresh_world_def make_config_def records_of_def)

text \<open>
  C9. The pagination loop is a total function: its termination is proved with the
  measure \<open>max_pages + 1 - page\<close>, for every environment. Whatever the upstream
  answers, one call of \<^verbatim>\<open>_scrape_id_range\<close> makes at most 1000 fetches.
\<close>

theorem page_ceiling:
  "fetches (trace (snd (scrape_id_range c e lo hi w))) \<le> fetches (trace w) + 1000
   \<and> requests (snd (scrape_id_range c e lo hi w)) \<le> requests w + 1000"
  using scrape_pages_fetch_bound [of c e lo hi 1 0 w]
  by (simp add: scrape_id_range_def max_pages_def)

text \<open>The ceiling is reached by an upstream that never returns a short page.\<close>

theorem page_ceiling_witness:
  "fetches (trace (snd (scrape_id_range (make_config 1 100)
      (quiet_env (\<lambda>n q. Response 200 (JsonArray [mk_post 7]))) 1 100 fresh_world))) = 1000"
proof -
  let ?c = "make_config 1 100" and ?e = "quiet_env (\<lambda>n q. Response 200 (JsonArray [mk_post 7]))"
  have "fetches (trace (snd (scrape_pages ?c ?e 1 100 1 0 fresh_world)))
          = fetches (trace fresh_world) + nat (max_pages + 1 - 1)"
    by (rule scrape_pages_all_full)
       (simp add: quiet_env_def records_of_def make_config_def)
  then have "fetches (trace (snd (scrape_id_range ?c ?e 1 100 fresh_world))) \<ge> 1000"
    by (simp add: scrape_id_range_def max_pages_def fresh_world_def)
  with page_ceiling [of ?c ?e 1 100 fresh_world] show ?thesis
    by (simp add: fresh_world_def)
qed

subsection \<open>The trace of the pagination loop\<close>

lemma page_blocks_backed: "page_blocks lo hi page st es \<Longrightarrow> backed (total_posts_scraped st) es"
  by (induction rule: page_blocks.induct) simp_all

lemma scrape_pages_blocks:
  "\<exists>es. trace (snd (scrape_pages c e lo hi page n w)) = trace w @ es
        \<and> page_blocks lo hi page (state w) es"
proof (induction page n w rule: scrape_pages_cases [of _ c e lo hi])
  case (stop page n w)
  then have "page_blocks lo hi page (state w) []" by (simp add: page_blocks.ceiling)
  then show ?case by simp
next
  case (empty page n w)
  then have "page_blocks lo hi page (state w) [Fetch lo hi page []]"
    by (simp add: page_blocks.exhausted)
  then show ?case by simp
next
  case (short page n w posts)
  from page_blocks.short_page [OF short(1,3) refl,
      where st = "state w" and t = "now_iso e (saves w)" and lo = lo and hi = hi]
  show ?case by simp
next
  case (more page n w posts r)
  then obtain es where es: "trace (snd r) = trace w @ Fetch lo hi page posts
       # Append posts (state w)
       # Save ((record_page posts (state w))\<lparr>last_update := Some (now_iso e (saves w))\<rparr>)
       # Sleep # es"
    and pb: "page_blocks lo hi (page + 1)
       ((record_page posts (state w))\<lparr>last_update := Some (now_iso e (saves w))\<rparr>) es"
    by auto
  from page_blocks.full_page [OF more(1,3) refl pb] es show ?case by simp
qed

subsection \<open>The driver's loop\<close>

lemma windows_of_append [simp]: "windows_of (xs @ ys) = windows_of xs @ windows_of ys"
  by (induction xs rule: windows_of.induct) auto

lemma scrape_pages_frame:
  "current_batch_start (state (snd (scrape_pages c e lo hi page n w))) = current_batch_start (state w)
   \<and> windows_of (trace (snd (scrape_pages c e lo hi page n w))) = windows_of (trace w)"
  by (induction page n w rule: scrape_pages_cases [of _ c e lo hi]) auto

lemma batch_body_eq:
  "batch_body c e h cmi w =
     (let w2 = snd (scrape_id_range c e cmi (window_end c h cmi)
                 (w\<lparr>trace := trace w @ [Window cmi (window_end c h cmi)]\<rparr>))
      in sleep (save_state e (w2\<lparr>state := (state w2)\<lparr>current_batch_start := Some (window_end c h cmi + 1)\<rparr>\<rparr>)))"
  by (simp add: batch_body_def Let_def split: prod.split)

lemma batch_body_checkpoint [simp]:
  "current_batch_start (state (batch_body c e h cmi w)) = Some (window_end c h cmi + 1)"
  by (simp add: batch_body_eq Let_def)

lemma batch_body_windows [simp]:
  "windows_of (trace (batch_body c e h cmi w)) = windows_of (trace w) @ [(cmi, window_end c h cmi)]"
  by (simp add: batch_body_eq Let_def scrape_id_range_def scrape_pages_frame)

lemma batch_loop_turns:
  assumes "batch_loop c e h cmi w = Some w'"
  shows "\<exists>k cmi'. batch_turns k c e h cmi w = (cmi', w') \<and> \<not> cmi' \<le> h"
proof (rule batch_loop.raw_induct
    [where P = "\<lambda>c e h cmi w w'. \<exists>k cmi'. batch_turns k c e h cmi w = (cmi', w') \<and> \<not> cmi' \<le> h",
      OF _ assms])
  fix f c e h cmi w w'
  assume IH: "\<And>c e h cmi w w'. f c e h cmi w = Some w' \<Longrightarrow>
      \<exists>k cmi'. batch_turns k c e h cmi w = (cmi', w') \<and> \<not> cmi' \<le> h"
    and eq: "(if cmi \<le> h then f c e h (window_end c h cmi + 1) (batch_body c e h cmi w)
              else Some w) = Some w'"
  show "\<exists>k cmi'. batch_turns k c e h cmi w = (cmi', w') \<and> \<not> cmi' \<le> h"
  proof (cases "cmi \<le> h")
    case True
    with eq have "f c e h (window_end c h cmi + 1) (batch_body c e h cmi w) = Some w'" by simp
    from IH [OF this] obtain k cmi' where
      "batch_turns k c e h (window_end c h cmi + 1) (batch_body c e h cmi w) = (cmi', w')"
      "\<not> cmi' \<le> h" by blast
    with True have "batch_turns (Suc k) c e h cmi w = (cmi', w') \<and> \<not> cmi' \<le> h" by simp
    then show ?thesis by blast
  next
    case False
    with eq have "batch_turns 0 c e h cmi w = (cmi, w') \<and> \<not> cmi \<le> h" by simp
    then show ?thesis by blast
  qed
qed

lemma batch_turns_loop:
  "batch_turns k c e h cmi w = (cmi', w') \<Longrightarrow> \<not> cmi' \<le> h \<Longrightarrow> batch_loop c e h cmi w = Some w'"
proof (induction k arbitrary: cmi w)
  case 0
  then show ?case by (simp add: batch_loop.simps)
next
  case (Suc k)
  show ?case
  proof (cases "cmi \<le> h")
    case True
    with Suc.prems have "batch_turns k c e h (window_end c h cmi + 1) (batch_body c e h cmi w) = (cmi', w')"
      by simp
    from Suc.IH [OF this Suc.prems(2)] True show ?thesis
      by (subst batch_loop.simps) simp
  next
    case False
    with Suc.prems show ?thesis by (simp add: batch_loop.simps)
  qed
qed

lemma batch_loop_terminates:
  assumes "1 \<le> batch_size c"
  shows "\<exists>w'. batch_loop c e h cmi w = Some w'
           \<and> windows_of (trace w') = windows_of (trace w) @ spec_windows (batch_size c) h cmi
           \<and> (cmi \<le> h \<longrightarrow> current_batch_start (state w') = Some (h + 1))"
proof (induction "nat (h + 1 - cmi)" arbitrary: cmi w rule: less_induct)
  case less
  show ?case
  proof (cases "cmi \<le> h")
    case False
    then show ?thesis
      by (simp add: batch_loop.simps spec_windows.simps [of _ h cmi])
  next
    case True
    let ?next = "window_end c h cmi + 1"
    let ?w1 = "batch_body c e h cmi w"
    from True assms have smaller: "nat (h + 1 - ?next) < nat (h + 1 - cmi)"
      by (simp add: window_end_def)
    from less [OF smaller, of ?w1] obtain w' where
      run: "batch_loop c e h ?next ?w1 = Some w'"
      and win: "windows_of (trace w') = windows_of (trace ?w1) @ spec_windows (batch_size c) h ?next"
      and cp: "?next \<le> h \<longrightarrow> current_batch_start (state w') = Some (h + 1)"
      by blast
    have "batch_loop c e h cmi w = Some w'"
      using True run by (subst batch_loop.simps) simp
    moreover have "windows_of (trace w') = windows_of (trace w) @ spec_windows (batch_size c) h cmi"
      using win True assms
      by (simp add: spec_windows.simps [of _ h cmi] window_end_def)
    moreover have "current_batch_start (state w') = Some (h + 1)"
    proof (cases "?next \<le> h")
      case True
      with cp show ?thesis by simp
    next
      case False
      with run have "w' = ?w1" by (simp add: batch_loop.simps)
      moreover from False True have "window_end c h cmi = h" by (simp add: window_end_def)
      ultimately show ?thesis by simp
    qed
    ultimately show ?thesis by blast
  qed
qed

lemma spec_windows_example: "spec_windows 100 250 1 = [(1, 100), (101, 200), (201, 250)]"
  by (simp add: spec_windows.simps)

lemma handed_append [simp]: "handed n (xs @ ys) = handed (handed n xs) ys"
  by (induction n xs rule: handed.induct) auto

lemma backed_append [simp]: "backed n (xs @ ys) \<longleftrightarrow> backed n xs \<and> backed (handed n xs) ys"
  by (induction n xs rule: backed.induct) auto

lemma scrape_pages_backed:
  "\<exists>es. trace (snd (scrape_pages c e lo hi page n w)) = trace w @ es
        \<and> backed (total_posts_scraped (state w)) es
        \<and> total_posts_scraped (state (snd (scrape_pages c e lo hi page n w)))
            = handed (total_posts_scraped (state w)) es"
proof (induction page n w rule: scrape_pages_cases [of _ c e lo hi])
  case (stop page n w)
  then show ?case by simp
next
  case (empty page n w)
  then show ?case by simp
next
  case (short page n w posts)
  then show ?case by simp
next
  case (more page n w posts r)
  then obtain es where es: "trace (snd r) = trace w @ [Fetch lo hi page posts,
       Append posts (state w),
       Save ((record_page posts (state w))\<lparr>last_update := Some (now_iso e (saves w))\<rparr>),
       Sleep] @ es"
    and b: "backed (total_posts_scraped (state w) + int (length posts)) es"
    and t: "total_posts_scraped (state (snd r))
              = handed (total_posts_scraped (state w) + int (length posts)) es"
    by auto
  show ?case
    by (rule exI [of _ "[Fetch lo hi page posts, Append posts (state w),
       Save ((record_page posts (state w))\<lparr>last_update := Some (now_iso e (saves w))\<rparr>),
       Sleep] @ es"]) (use es b t in simp)
qed

lemma batch_body_trace:
  "\<exists>es st. trace (batch_body c e h cmi w)
              = trace w @ Window cmi (window_end c h cmi) # es @ [Save st, Sleep]
         \<and> page_blocks cmi (window_end c h cmi) 1 (state w) es
         \<and> current_batch_start st = Some (window_end c h cmi + 1)
         \<and> backed (total_posts_scraped (state w)) (es @ [Save st])
         \<and> total_posts_scraped (state (batch_body c e h cmi w))
             = handed (total_posts_scraped (state w)) es"
proof -
  let ?we = "window_end c h cmi"
  let ?w1 = "w\<lparr>trace := trace w @ [Window cmi ?we]\<rparr>"
  let ?w2 = "snd (scrape_pages c e cmi ?we 1 0 ?w1)"
  from scrape_pages_blocks [of c e cmi ?we 1 0 ?w1] obtain es where
    es: "trace ?w2 = trace ?w1 @ es" and pb: "page_blocks cmi ?we 1 (state ?w1) es"
    by blast
  from scrape_pages_backed [of c e cmi ?we 1 0 ?w1] es obtain
    b: "backed (total_posts_scraped (state ?w1)) es"
    and t: "total_posts_scraped (state ?w2) = handed (total_posts_scraped (state ?w1)) es"
    by auto
  let ?st = "(state ?w2)\<lparr>current_batch_start := Some (?we + 1),
                last_update := Some (now_iso e (saves ?w2))\<rparr>"
  have "trace (batch_body c e h cmi w) = trace w @ Window cmi ?we # es @ [Save ?st, Sleep]"
    using es by (simp add: batch_body_eq Let_def scrape_id_range_def)
  moreover have "total_posts_scraped (state (batch_body c e h cmi w))
       = handed (total_posts_scraped (state w)) es"
    using t by (simp add: batch_body_eq Let_def scrape_id_range_def)
  moreover have "backed (total_posts_scraped (state w)) (es @ [Save ?st])"
    using b t by simp
  ultimately show ?thesis using pb by auto
qed

lemma batch_turns_backed:
  "\<exists>es. trace (snd (batch_turns k c e h cmi w)) = trace w @ es
        \<and> backed (total_posts_scraped (state w)) es
        \<and> total_posts_scraped (state (snd (batch_turns k c e h cmi w)))
            = handed (total_posts_scraped (state w)) es"
proof (induction k arbitrary: cmi w)
  case 0
  show ?case by simp
next
  case (Suc k)
  show ?case
  proof (cases "cmi \<le> h")
    case False
    then show ?thesis by simp
  next
    case True
    let ?w1 = "batch_body c e h cmi w"
    from batch_body_trace [of c e h cmi w] obtain es1 st where
      t1: "trace ?w1 = trace w @ Window cmi (window_end c h cmi) # es1 @ [Save st, Sleep]"
      and b1: "backed (total_posts_scraped (state w)) (es1 @ [Save st])"
      and n1: "total_posts_scraped (state ?w1) = handed (total_posts_scraped (state w)) es1"
      by blast
    from Suc.IH [of "window_end c h cmi + 1" ?w1] obtain es2 where
      t2: "trace (snd (batch_turns k c e h (window_end c h cmi + 1) ?w1)) = trace ?w1 @ es2"
      and b2: "backed (total_posts_scraped (state ?w1)) es2"
      and n2: "total_posts_scraped (state (snd (batch_turns k c e h (window_end c h cmi + 1) ?w1)))
                = handed (total_posts_scraped (state ?w1)) es2"
      by blast
    show ?thesis
      by (rule exI [of _ "Window cmi (window_end c h cmi) # es1 @ [Save st, Sleep] @ es2"])
         (use True t1 b1 n1 t2 b2 n2 in simp)
  qed
qed

lemma get_highest_eq:
  "get_highest_post_id e w =
     (case records_of (http e (requests w) GetNewest) of
        [] \<Rightarrow> (None, asked_newest None w)
      | p # ps \<Rightarrow> (Some (post_id p), asked_newest (Some (post_id p)) w))"
  by (simp add: get_highest_post_id_def asked_newest_def Let_def split: list.split)

lemma asked_newest_fields [simp]:
  "state (asked_newest x w) = state w"
  "state_file (asked_newest x w) = state_file w"
  "output_file (asked_newest x w) = output_file w"
  "requests (asked_newest x w) = Suc (requests w)"
  "saves (asked_newest x w) = saves w"
  "appends (asked_newest x w) = appends w"
  "trace (asked_newest x w) = trace w @ [Newest x]"
  by (simp_all add: asked_newest_def)

lemma batch_loop_diverges:
  assumes "batch_size c \<le> 0" and "cmi \<le> h"
  shows "batch_loop c e h cmi w = None"
proof (cases "batch_loop c e h cmi w")
  case None
  then show ?thesis .
next
  case (Some w')
  have "\<not> (batch_size c \<le> 0 \<and> cmi \<le> h)"
  proof (rule batch_loop.raw_induct
      [where P = "\<lambda>c e h cmi w w'. \<not> (batch_size c \<le> 0 \<and> cmi \<le> h)", OF _ Some])
    fix f c e h cmi w w'
    assume IH: "\<And>c e h cmi w w'. f c e h cmi w = Some w' \<Longrightarrow> \<not> (batch_size c \<le> 0 \<and> cmi \<le> h)"
      and eq: "(if cmi \<le> h then f c e h (window_end c h cmi + 1) (batch_body c e h cmi w)
                else Some w) = Some w'"
    show "\<not> (batch_size c \<le> 0 \<and> cmi \<le> h)"
    proof
      assume a: "batch_size c \<le> 0 \<and> cmi \<le> h"
      with eq have "f c e h (window_end c h cmi + 1) (batch_body c e h cmi w) = Some w'"
        by simp
      from IH [OF this] a show False by (simp add: window_end_def)
    qed
  qed
  with assms show ?thesis by simp
qed

subsection \<open>Sink before progress\<close>

text \<open>
  C10. The trace one call of \<^verbatim>\<open>_scrape_id_range\<close> adds has the shape \<open>page_blocks\<close>:
  every fetch that returns records is followed at once by the append of exactly these
  records, called while the in-memory state is still the one before the page (neither
  \<^verbatim>\<open>total_posts_scraped\<close> nor \<^verbatim>\<open>last_processed_id\<close> updated), and only then by the
  save of the state with the page counted. Hence the trace is backed: no save, of the
  scanner or of any number of turns of the driver's loop, writes a state that counts
  records beyond those handed to the sink before it.
\<close>

theorem sink_before_progress:
  "(\<exists>es. trace (snd (scrape_id_range c e lo hi w)) = trace w @ es
        \<and> page_blocks lo hi 1 (state w) es
        \<and> backed (total_posts_scraped (state w)) es)
   \<and> (\<forall>k. \<exists>es. trace (snd (batch_turns k c e h cmi w)) = trace w @ es
        \<and> backed (total_posts_scraped (state w)) es)"
proof -
  from scrape_pages_blocks [of c e lo hi 1 0 w] obtain es where
    es: "trace (snd (scrape_pages c e lo hi 1 0 w)) = trace w @ es"
    and pb: "page_blocks lo hi 1 (state w) es" by blast
  from page_blocks_backed [OF pb] es pb
  have "\<exists>es. trace (snd (scrape_id_range c e lo hi w)) = trace w @ es
        \<and> page_blocks lo hi 1 (state w) es
        \<and> backed (total_posts_scraped (state w)) es"
    by (auto simp: scrape_id_range_def)
  moreover have "\<forall>k. \<exists>es. trace (snd (batch_turns k c e h cmi w)) = trace w @ es
        \<and> backed (total_posts_scraped (state w)) es"
    using batch_turns_backed [of _ c e h cmi w] by blast
  ultimately show ?thesis by blast
qed

theorem sink_before_progress_witness:
  "backed 0 (trace (snd (scrape_id_range (make_config 2 100) (quiet_env (archive [1, 2, 3]))
      1 100 fresh_world)))
   \<and> page_blocks 1 100 1 default_state
       (trace (snd (scrape_id_range (make_config 2 100) (quiet_env (archive [1, 2, 3]))
          1 100 fresh_world)))"
  using sink_before_progress [of "make_config 2 100" "quiet_env (archive [1, 2, 3])" 1 100
      fresh_world 0 0]
  by (auto simp: fresh_world_def default_state_def)

subsection \<open>Batch driver: the windows of a run\<close>

text \<open>
  C2. With the newest id \<open>h\<close> answered by the upstream, \<^verbatim>\<open>scrape_all\<close> is the loop
  started at the checkpoint of the state. The loop returns at once when
  \<open>current_min_id > h\<close>; otherwise one turn announces and scans the window from
  \<open>current_min_id\<close> to \<open>min (current_min_id + batch_size - 1) h\<close>, sets
  \<^verbatim>\<open>current_batch_start\<close> to one past its end, saves, pauses, and the loop goes on from
  there. For a batch size of at least 1 the run ends, the windows it announced are those
  of the specification, and the checkpoint left is \<open>h + 1\<close> (the state is untouched
  when the checkpoint was beyond \<open>h\<close> already); with a batch size of 0 or less and a
  checkpoint not beyond \<open>h\<close> the loop never reaches \<open>current_min_id > h\<close> and never ends.
  The example of the specification (checkpoint 1, newest id 250, batch size 100) is the
  witness.
\<close>

theorem batch_driver_windows:
  assumes newest: "records_of (http e (requests w) GetNewest) = p # ps"
  shows "scrape_all c e w
           = batch_loop c e (post_id p) (checkpoint (state w)) (asked_newest (Some (post_id p)) w)
    \<and> (\<forall>cmi v. \<not> cmi \<le> post_id p \<longrightarrow> batch_loop c e (post_id p) cmi v = Some v)
    \<and> (\<forall>cmi v. cmi \<le> post_id p \<longrightarrow>
          batch_loop c e (post_id p) cmi v
            = batch_loop c e (post_id p) (min (cmi + batch_size c - 1) (post_id p) + 1)
                (batch_body c e (post_id p) cmi v)
          \<and> current_batch_start (state (batch_body c e (post_id p) cmi v))
              = Some (min (cmi + batch_size c - 1) (post_id p) + 1)
          \<and> (\<exists>es st. trace (batch_body c e (post_id p) cmi v)
                = trace v @ Window cmi (min (cmi + batch_size c - 1) (post_id p)) # es
                    @ [Save st, Sleep]
              \<and> page_blocks cmi (min (cmi + batch_size c - 1) (post_id p)) 1 (state v) es
              \<and> current_batch_start st = Some (min (cmi + batch_size c - 1) (post_id p) + 1)))
    \<and> (1 \<le> batch_size c \<longrightarrow>
          (\<exists>w'. scrape_all c e w = Some w'
             \<and> windows_of (trace w')
                 = windows_of (trace w) @ spec_windows (batch_size c) (post_id p) (checkpoint (state w))
             \<and> (checkpoint (state w) \<le> post_id p \<longrightarrow>
                  current_batch_start (state w') = Some (post_id p + 1))
             \<and> (\<not> checkpoint (state w) \<le> post_id p \<longrightarrow> state w' = state w)))
    \<and> (batch_size c \<le> 0 \<and> checkpoint (state w) \<le> post_id p \<longrightarrow> scrape_all c e w = None)"
proof -
  let ?h = "post_id p"
  let ?w1 = "asked_newest (Some ?h) w"
  have run: "scrape_all c e w = batch_loop c e ?h (checkpoint (state w)) ?w1"
    using newest by (simp add: scrape_all_def get_highest_eq)
  have stop: "\<forall>cmi v. \<not> cmi \<le> ?h \<longrightarrow> batch_loop c e ?h cmi v = Some v"
    by (simp add: batch_loop.simps)
  have turn: "\<forall>cmi v. cmi \<le> ?h \<longrightarrow>
          batch_loop c e ?h cmi v
            = batch_loop c e ?h (min (cmi + batch_size c - 1) ?h + 1) (batch_body c e ?h cmi v)
          \<and> current_batch_start (state (batch_body c e ?h cmi v))
              = Some (min (cmi + batch_size c - 1) ?h + 1)
          \<and> (\<exists>es st. trace (batch_body c e ?h cmi v)
                = trace v @ Window cmi (min (cmi + batch_size c - 1) ?h) # es @ [Save st, Sleep]
              \<and> page_blocks cmi (min (cmi + batch_size c - 1) ?h) 1 (state v) es
              \<and> current_batch_start st = Some (min (cmi + batch_size c - 1) ?h + 1))"
  proof (intro allI impI conjI)
    fix cmi v
    assume le: "cmi \<le> ?h"
    then show "batch_loop c e ?h cmi v
        = batch_loop c e ?h (min (cmi + batch_size c - 1) ?h + 1) (batch_body c e ?h cmi v)"
      by (subst batch_loop.simps) (simp add: window_end_def)
    show "current_batch_start (state (batch_body c e ?h cmi v))
        = Some (min (cmi + batch_size c - 1) ?h + 1)"
      by (simp add: window_end_def)
    from batch_body_trace [of c e ?h cmi v]
    show "\<exists>es st. trace (batch_body c e ?h cmi v)
                = trace v @ Window cmi (min (cmi + batch_size c - 1) ?h) # es @ [Save st, Sleep]
              \<and> page_blocks cmi (min (cmi + batch_size c - 1) ?h) 1 (state v) es
              \<and> current_batch_start st = Some (min (cmi + batch_size c - 1) ?h + 1)"
      unfolding window_end_def by blast
  qed
  have total: "1 \<le> batch_size c \<longrightarrow>
          (\<exists>w'. scrape_all c e w = Some w'
             \<and> windows_of (trace w')
                 = windows_of (trace w) @ spec_windows (batch_size c) ?h (checkpoint (state w))
             \<and> (checkpoint (state w) \<le> ?h \<longrightarrow> current_batch_start (state w') = Some (?h + 1))
             \<and> (\<not> checkpoint (state w) \<le> ?h \<longrightarrow> state w' = state w))"
  proof
    assume bs: "1 \<le> batch_size c"
    from batch_loop_terminates [OF bs, of e ?h "checkpoint (state w)" ?w1] obtain w' where
      r: "batch_loop c e ?h (checkpoint (state w)) ?w1 = Some w'"
      and win: "windows_of (trace w')
          = windows_of (trace ?w1) @ spec_windows (batch_size c) ?h (checkpoint (state w))"
      and cp: "checkpoint (state w) \<le> ?h \<longrightarrow> current_batch_start (state w') = Some (?h + 1)"
      by blast
    have "\<not> checkpoint (state w) \<le> ?h \<longrightarrow> state w' = state w"
      using r by (auto simp: batch_loop.simps)
    with r win cp run show "\<exists>w'. scrape_all c e w = Some w'
             \<and> windows_of (trace w')
                 = windows_of (trace w) @ spec_windows (batch_size c) ?h (checkpoint (state w))
             \<and> (checkpoint (state w) \<le> ?h \<longrightarrow> current_batch_start (state w') = Some (?h + 1))
             \<and> (\<not> checkpoint (state w) \<le> ?h \<longrightarrow> state w' = state w)"
      by simp
  qed
  have forever: "batch_size c \<le> 0 \<and> checkpoint (state w) \<le> ?h \<longrightarrow> scrape_all c e w = None"
    using run batch_loop_diverges [of c "checkpoint (state w)" ?h e ?w1] by simp
  from run stop turn total forever show ?thesis by blast
qed

theorem batch_driver_windows_witness:
  "\<exists>w'. scrape_all (make_config 50 100) (quiet_env (archive [3, 120, 250])) fresh_world = Some w'
     \<and> windows_of (trace w') = [(1, 100), (101, 200), (201, 250)]
     \<and> current_batch_start (state w') = Some 251"
proof -
  have n: "records_of (http (quiet_env (archive [3, 120, 250])) (requests fresh_world) GetNewest)
      = mk_post 250 # [mk_post 120, mk_post 3]"
    by (simp add: quiet_env_def records_of_def)
  have s: "spec_windows 100 250 1 = [(1, 100), (101, 200), (201, 250)]"
    by (simp add: spec_windows.simps)
  from batch_driver_windows [OF n, of "make_config 50 100"] s show ?thesis
    by (simp add: make_config_def mk_post_def fresh_world_def default_state_def checkpoint_def)
qed

lemma batch_turns_checkpoint:
  "checkpoint (state w) = cmi \<Longrightarrow> batch_turns k c e h cmi w = (cmi', w') \<Longrightarrow>
     checkpoint (state w') = cmi'"
proof (induction k arbitrary: cmi w)
  case 0
  then show ?case by simp
next
  case (Suc k)
  show ?case
  proof (cases "cmi \<le> h")
    case True
    have "checkpoint (state (batch_body c e h cmi w)) = window_end c h cmi + 1"
      by (simp add: checkpoint_def)
    from Suc.IH [OF this] Suc.prems(2) True show ?thesis by simp
  next
    case False
    with Suc.prems show ?thesis by simp
  qed
qed

lemma completed_run_checkpoint:
  assumes "batch_loop c e h (checkpoint (state w)) w = Some w'"
  shows "h < checkpoint (state w')"
proof -
  from batch_loop_turns [OF assms] obtain k cmi' where
    t: "batch_turns k c e h (checkpoint (state w)) w = (cmi', w')" and "\<not> cmi' \<le> h" by blast
  from batch_turns_checkpoint [OF refl t] \<open>\<not> cmi' \<le> h\<close> show ?thesis by simp
qed

lemma checkpoint_simps [simp]:
  "checkpoint (st\<lparr>last_update := t\<rparr>) = checkpoint st"
  "checkpoint (record_page posts st) = checkpoint st"
  "checkpoint (st\<lparr>current_batch_start := Some b\<rparr>) = b"
  by (simp_all add: checkpoint_def)

lemma persisted_simps [simp]:
  "persisted (fetched lo hi page posts w) = persisted w"
  "persisted (sleep w) = persisted w"
  "persisted (asked_newest x w) = persisted w"
  "persisted (append_posts_to_file e posts w) = persisted w"
  "persisted (count_page posts w) = persisted w"
  "persisted (w\<lparr>trace := tr\<rparr>) = persisted w"
  "persisted (w\<lparr>state := st\<rparr>) = persisted w"
  by (simp_all add: persisted_def asked_newest_def)

lemma persisted_save:
  assumes "never_torn e"
  shows "persisted (save_state e w) = persisted w \<or> persisted (save_state e w) = checkpoint (state w)"
proof -
  from assms have "case state_io e (saves w) of WriteFails m \<Rightarrow> False | _ \<Rightarrow> True"
    by (simp add: never_torn_def)
  then show ?thesis
    by (cases "state_io e (saves w)") (simp_all add: persisted_def load_state_def)
qed

lemma persisted_process_page:
  assumes "never_torn e"
  shows "persisted (process_page e posts w) = persisted w
       \<or> persisted (process_page e posts w) = checkpoint (state w)"
  using persisted_save [OF assms, of "count_page posts (append_posts_to_file e posts w)"]
  by (simp add: process_page_def)

lemma scrape_pages_checkpoint:
  "checkpoint (state (snd (scrape_pages c e lo hi page n w))) = checkpoint (state w)"
  by (induction page n w rule: scrape_pages_cases [of _ c e lo hi]) auto

lemma scrape_pages_persisted:
  assumes "never_torn e"
  shows "persisted (snd (scrape_pages c e lo hi page n w)) = persisted w
       \<or> persisted (snd (scrape_pages c e lo hi page n w)) = checkpoint (state w)"
proof (induction page n w rule: scrape_pages_cases [of _ c e lo hi])
  case (stop page n w)
  then show ?case by simp
next
  case (empty page n w)
  then show ?case by simp
next
  case (short page n w posts)
  with persisted_process_page [OF assms, of posts "fetched lo hi page posts w"]
  show ?case by simp
next
  case (more page n w posts r)
  with persisted_process_page [OF assms, of posts "fetched lo hi page posts w"]
  show ?case by auto
qed

lemma batch_body_persisted:
  assumes "never_torn e"
  shows "persisted (batch_body c e h cmi w) = persisted w
       \<or> persisted (batch_body c e h cmi w) = checkpoint (state w)
       \<or> persisted (batch_body c e h cmi w) = window_end c h cmi + 1"
proof -
  let ?we = "window_end c h cmi"
  let ?w1 = "w\<lparr>trace := trace w @ [Window cmi ?we]\<rparr>"
  let ?w2 = "snd (scrape_pages c e cmi ?we 1 0 ?w1)"
  let ?w3 = "?w2\<lparr>state := (state ?w2)\<lparr>current_batch_start := Some (?we + 1)\<rparr>\<rparr>"
  have b: "batch_body c e h cmi w = sleep (save_state e ?w3)"
    by (simp add: batch_body_eq Let_def scrape_id_range_def)
  from scrape_pages_persisted [OF assms, of c cmi ?we 1 0 ?w1]
  have "persisted ?w3 = persisted w \<or> persisted ?w3 = checkpoint (state w)" by simp
  with persisted_save [OF assms, of ?w3] show ?thesis
    by (auto simp: b)
qed

lemma window_end_advances: "0 \<le> batch_size c \<Longrightarrow> cmi \<le> h \<Longrightarrow> cmi \<le> window_end c h cmi + 1"
  by (simp add: window_end_def)

lemma batch_turns_monotone:
  assumes "0 \<le> batch_size c"
  shows "checkpoint (state w) = cmi \<Longrightarrow> cmi \<le> checkpoint (state (snd (batch_turns k c e h cmi w)))"
proof (induction k arbitrary: cmi w)
  case 0
  then show ?case by simp
next
  case (Suc k)
  show ?case
  proof (cases "cmi \<le> h")
    case True
    have "checkpoint (state (batch_body c e h cmi w)) = window_end c h cmi + 1"
      by (simp add: checkpoint_def)
    from Suc.IH [OF this] window_end_advances [OF assms True] True show ?thesis by simp
  next
    case False
    with Suc.prems show ?thesis by simp
  qed
qed

lemma batch_turns_persisted:
  assumes "0 \<le> batch_size c" and "never_torn e"
  shows "checkpoint (state w) = cmi \<Longrightarrow> persisted w \<le> cmi \<Longrightarrow>
     persisted w \<le> persisted (snd (batch_turns k c e h cmi w))
     \<and> persisted (snd (batch_turns k c e h cmi w))
         \<le> checkpoint (state (snd (batch_turns k c e h cmi w)))"
proof (induction k arbitrary: cmi w)
  case 0
  then show ?case by simp
next
  case (Suc k)
  show ?case
  proof (cases "cmi \<le> h")
    case True
    let ?w1 = "batch_body c e h cmi w" and ?next = "window_end c h cmi + 1"
    have cp: "checkpoint (state ?w1) = ?next" by (simp add: checkpoint_def)
    from window_end_advances [OF assms(1) True] have adv: "cmi \<le> ?next" .
    from batch_body_persisted [OF assms(2), of c h cmi w] Suc.prems adv
    have p1: "persisted w \<le> persisted ?w1 \<and> persisted ?w1 \<le> ?next" by auto
    from Suc.IH [OF cp] p1 True show ?thesis by auto
  next
    case False
    with Suc.prems show ?thesis by simp
  qed
qed

lemma scrape_all_persisted:
  assumes "0 \<le> batch_size c" and "never_torn e" and "scrape_all c e w = Some w'"
    and "persisted w \<le> checkpoint (state w)"
  shows "checkpoint (state w) \<le> checkpoint (state w') \<and> persisted w \<le> persisted w'
       \<and> persisted w' \<le> checkpoint (state w')"
proof (cases "records_of (http e (requests w) GetNewest)")
  case Nil
  with assms(3,4) show ?thesis by (auto simp: scrape_all_def get_highest_eq)
next
  case (Cons p ps)
  let ?w0 = "asked_newest (Some (post_id p)) w"
  from Cons assms(3) have "batch_loop c e (post_id p) (checkpoint (state ?w0)) ?w0 = Some w'"
    by (simp add: scrape_all_def get_highest_eq)
  from batch_loop_turns [OF this] obtain k cmi' where
    t: "batch_turns k c e (post_id p) (checkpoint (state ?w0)) ?w0 = (cmi', w')" by blast
  from batch_turns_monotone [OF assms(1) refl, of ?w0 k e "post_id p"]
    batch_turns_persisted [OF assms(1,2) refl, of ?w0 k "post_id p"] assms(4) t
  show ?thesis by simp
qed

lemma run_process_persisted:
  assumes "0 \<le> batch_size c" and "never_torn e" and "run_process c e w = Some w'"
  shows "persisted w \<le> persisted w'"
  using scrape_all_persisted [OF assms(1,2) assms(3) [unfolded run_process_def]]
  by (simp add: start_process_def persisted_def)

lemma runs_persisted:
  assumes "\<forall>(c, e) \<in> set rs. 0 \<le> batch_size c \<and> never_torn e"
  shows "runs rs w = Some w' \<Longrightarrow> persisted w \<le> persisted w'"
  using assms
proof (induction rs arbitrary: w)
  case Nil
  then show ?case by simp
next
  case (Cons r rs)
  obtain c e where r: "r = (c, e)" by (cases r)
  from Cons.prems(1) r obtain w1 where w1: "run_process c e w = Some w1" and rest: "runs rs w1 = Some w'"
    by (auto split: option.splits)
  from Cons.prems(2) r have "0 \<le> batch_size c" "never_torn e" by auto
  from run_process_persisted [OF this w1] Cons.IH [OF rest] Cons.prems(2) show ?case by auto
qed

lemma scrape_all_terminates:
  assumes "1 \<le> batch_size c"
  shows "\<exists>w'. scrape_all c e w = Some w'"
proof (cases "records_of (http e (requests w) GetNewest)")
  case Nil
  then show ?thesis by (simp add: scrape_all_def get_highest_eq)
next
  case (Cons p ps)
  with batch_loop_terminates [OF assms, of e "post_id p" "checkpoint (state w)"
      "asked_newest (Some (post_id p)) w"]
  show ?thesis by (auto simp: scrape_all_def get_highest_eq)
qed

lemma never_torn_quiet [simp]: "never_torn (quiet_env h)"
  by (simp add: never_torn_def quiet_env_def)

lemma batch_body_saved:
  assumes "\<And>n. state_io e n = Completes"
  shows "state_file (batch_body c e h cmi w) = Intact (state (batch_body c e h cmi w))"
  by (simp add: batch_body_eq Let_def assms)

lemma batch_turns_saved:
  assumes io: "\<And>n. state_io e n = Completes"
  shows "cmi \<le> h \<Longrightarrow> batch_turns k c e h cmi w = (cmi', w') \<Longrightarrow> \<not> cmi' \<le> h \<Longrightarrow>
     state_file w' = Intact (state w')"
proof (induction k arbitrary: cmi w)
  case 0
  then show ?case by simp
next
  case (Suc k)
  let ?next = "window_end c h cmi + 1" and ?w1 = "batch_body c e h cmi w"
  from Suc.prems have t: "batch_turns k c e h ?next ?w1 = (cmi', w')" by simp
  show ?case
  proof (cases "?next \<le> h")
    case True
    from Suc.IH [OF True t Suc.prems(3)] show ?thesis .
  next
    case False
    with t have "w' = ?w1" by (cases k) simp_all
    with batch_body_saved [OF io] show ?thesis by simp
  qed
qed

subsection \<open>Running again after a completed run\<close>

text \<open>
  C3. Let a run that was told the newest id \<open>h\<close> have completed. A second call of
  \<^verbatim>\<open>scrape_all\<close> on the state it left, told a newest id not above \<open>h\<close> (or none at
  all), only asks for the newest id: it makes no page fetch, no append and no save, and
  leaves the progress state, the state file and the output file as they are. A new
  process does the same when the state file holds the state the first run ended with,
  which it does when every write of the state file completed and the first run had a
  window to process.
\<close>

theorem rerun_is_noop:
  assumes first: "records_of (http e1 (requests w) GetNewest) = p # ps"
    and completed: "scrape_all c e1 w = Some w1"
    and unchanged: "records_of (http e2 (requests w1) GetNewest) = []
       \<or> post_id (hd (records_of (http e2 (requests w1) GetNewest))) \<le> post_id p"
  shows "scrape_all c e2 w1 = Some (asked_newest (fst (get_highest_post_id e2 w1)) w1)
       \<and> (\<forall>w2. scrape_all c e2 w1 = Some w2 \<longrightarrow>
            fetches (trace w2) = fetches (trace w1) \<and> state w2 = state w1
            \<and> state_file w2 = state_file w1 \<and> output_file w2 = output_file w1
            \<and> saves w2 = saves w1 \<and> appends w2 = appends w1)
       \<and> (state_file w1 = Intact (state w1) \<longrightarrow> run_process c e2 w1 = scrape_all c e2 w1)
       \<and> ((\<forall>n. state_io e1 n = Completes) \<and> checkpoint (state w) \<le> post_id p \<longrightarrow>
            state_file w1 = Intact (state w1))"
proof -
  let ?w0 = "asked_newest (Some (post_id p)) w"
  from first completed
  have loop: "batch_loop c e1 (post_id p) (checkpoint (state ?w0)) ?w0 = Some w1"
    by (simp add: scrape_all_def get_highest_eq)
  from completed_run_checkpoint [OF this] have beyond: "post_id p < checkpoint (state w1)" .
  have r: "scrape_all c e2 w1 = Some (asked_newest (fst (get_highest_post_id e2 w1)) w1)"
  proof (cases "records_of (http e2 (requests w1) GetNewest)")
    case Nil
    then show ?thesis by (simp add: scrape_all_def get_highest_eq)
  next
    case (Cons q qs)
    with unchanged beyond have "\<not> checkpoint (state w1) \<le> post_id q" by simp
    then have "batch_loop c e2 (post_id q) (checkpoint (state w1))
        (asked_newest (Some (post_id q)) w1) = Some (asked_newest (Some (post_id q)) w1)"
      by (subst batch_loop.simps) simp
    with Cons show ?thesis
      by (simp add: scrape_all_def get_highest_eq)
  qed
  have s: "state_file w1 = Intact (state w1) \<longrightarrow> run_process c e2 w1 = scrape_all c e2 w1"
    by (simp add: run_process_def start_process_def load_state_def)
  have i: "(\<forall>n. state_io e1 n = Completes) \<and> checkpoint (state w) \<le> post_id p \<longrightarrow>
            state_file w1 = Intact (state w1)"
  proof
    assume a: "(\<forall>n. state_io e1 n = Completes) \<and> checkpoint (state w) \<le> post_id p"
    from batch_loop_turns [OF loop] obtain k cmi' where
      t: "batch_turns k c e1 (post_id p) (checkpoint (state ?w0)) ?w0 = (cmi', w1)"
      and "\<not> cmi' \<le> post_id p" by blast
    with a batch_turns_saved [of e1 "checkpoint (state ?w0)" "post_id p" k c ?w0 cmi' w1]
    show "state_file w1 = Intact (state w1)" by simp
  qed
  from r s i show ?thesis by auto
qed

theorem rerun_is_noop_witness:
  "\<exists>w1. scrape_all (make_config 50 100) (quiet_env (archive [3, 120, 250])) fresh_world = Some w1
     \<and> scrape_all (make_config 50 100) (quiet_env (archive [3, 120, 250])) w1
         = Some (asked_newest (Some 250) w1)
     \<and> run_process (make_config 50 100) (quiet_env (archive [3, 120, 250])) w1
         = Some (asked_newest (Some 250) w1)
     \<and> fetches (trace (asked_newest (Some 250) w1)) = fetches (trace w1)"
proof -
  let ?c = "make_config 50 100" and ?e = "quiet_env (archive [3, 120, 250])"
  have n: "\<And>k. records_of (http ?e k GetNewest) = mk_post 250 # [mk_post 120, mk_post 3]"
    by (simp add: quiet_env_def records_of_def)
  have "1 \<le> batch_size ?c" by (simp add: make_config_def)
  from scrape_all_terminates [OF this, of ?e fresh_world]
  obtain w1 where run1: "scrape_all ?c ?e fresh_world = Some w1" by blast
  have u: "records_of (http ?e (requests w1) GetNewest) = []
       \<or> post_id (hd (records_of (http ?e (requests w1) GetNewest))) \<le> post_id (mk_post 250)"
    by (simp add: n)
  have io: "\<forall>n. state_io ?e n = Completes" by (simp add: quiet_env_def)
  have cp: "checkpoint (state fresh_world) \<le> post_id (mk_post 250)"
    by (simp add: fresh_world_def default_state_def checkpoint_def mk_post_def)
  from rerun_is_noop [OF n run1 u] io cp
  have "scrape_all ?c ?e w1 = Some (asked_newest (fst (get_highest_post_id ?e w1)) w1)"
    and "run_process ?c ?e w1 = scrape_all ?c ?e w1"
    by blast+
  moreover have "fst (get_highest_post_id ?e w1) = Some 250"
    by (simp add: get_highest_eq n mk_post_def)
  ultimately show ?thesis using run1 by auto
qed

subsection \<open>The checkpoint\<close>

text \<open>
  C8, as amended. With a batch size that is not negative, the checkpoint never goes
  down: the scanner does not change it, it has not gone down after any number of turns
  of the driver's loop nor at the end of a run, and when no write of the state file
  stops midway, the checkpoint a new process would start from has not gone down either,
  after any number of turns and across any sequence of runs that each load the state
  file. As stated, for every configuration, the claim fails: with a negative batch size
  one turn of the loop moves the checkpoint from 1 to -4, in memory and in the file;
  and a write of the state file that stops right after \<^verbatim>\<open>open\<close> turns a persisted
  checkpoint of 101 into 1.
\<close>

theorem checkpoint_never_decreases:
  assumes "0 \<le> batch_size c"
  shows "checkpoint (state (snd (scrape_id_range c e lo hi w))) = checkpoint (state w)
     \<and> checkpoint (state w)
         \<le> checkpoint (state (snd (batch_turns k c e h (checkpoint (state w)) w)))
     \<and> (\<forall>w'. scrape_all c e w = Some w' \<longrightarrow> checkpoint (state w) \<le> checkpoint (state w'))
     \<and> (never_torn e \<and> persisted w \<le> checkpoint (state w) \<longrightarrow>
          persisted w \<le> persisted (snd (batch_turns k c e h (checkpoint (state w)) w)))
     \<and> (\<forall>rs w'. (\<forall>(c', e') \<in> set rs. 0 \<le> batch_size c' \<and> never_torn e')
            \<and> runs rs w = Some w' \<longrightarrow> persisted w \<le> persisted w')"
proof (intro conjI allI impI)
  show "checkpoint (state (snd (scrape_id_range c e lo hi w))) = checkpoint (state w)"
    by (simp add: scrape_id_range_def scrape_pages_checkpoint)
  show "checkpoint (state w)
      \<le> checkpoint (state (snd (batch_turns k c e h (checkpoint (state w)) w)))"
    by (rule batch_turns_monotone [OF assms refl])
next
  fix w'
  assume run: "scrape_all c e w = Some w'"
  show "checkpoint (state w) \<le> checkpoint (state w')"
  proof (cases "records_of (http e (requests w) GetNewest)")
    case Nil
    with run show ?thesis by (auto simp: scrape_all_def get_highest_eq)
  next
    case (Cons p ps)
    let ?w0 = "asked_newest (Some (post_id p)) w"
    from Cons run have "batch_loop c e (post_id p) (checkpoint (state ?w0)) ?w0 = Some w'"
      by (simp add: scrape_all_def get_highest_eq)
    from batch_loop_turns [OF this] obtain k' cmi' where
      "batch_turns k' c e (post_id p) (checkpoint (state ?w0)) ?w0 = (cmi', w')" by blast
    with batch_turns_monotone [OF assms refl, of ?w0 k' e "post_id p"] show ?thesis by simp
  qed
next
  assume "never_torn e \<and> persisted w \<le> checkpoint (state w)"
  with batch_turns_persisted [OF assms _ refl, of e w k h]
  show "persisted w \<le> persisted (snd (batch_turns k c e h (checkpoint (state w)) w))"
    by simp
next
  fix rs w'
  assume "(\<forall>(c', e') \<in> set rs. 0 \<le> batch_size c' \<and> never_torn e') \<and> runs rs w = Some w'"
  then show "persisted w \<le> persisted w'"
    using runs_persisted [of rs w w'] by blast
qed

theorem checkpoint_never_decreases_witness:
  "0 \<le> batch_size (make_config 50 100)
   \<and> never_torn (quiet_env (archive [3, 120, 250]))
   \<and> 1 \<le> checkpoint (state (snd (batch_turns 2 (make_config 50 100)
            (quiet_env (archive [3, 120, 250])) 250 1 fresh_world)))
   \<and> 1 \<le> persisted (snd (batch_turns 2 (make_config 50 100)
            (quiet_env (archive [3, 120, 250])) 250 1 fresh_world))"
proof -
  have bs: "0 \<le> batch_size (make_config 50 100)" by (simp add: make_config_def)
  have cp: "checkpoint (state fresh_world) = 1" "persisted fresh_world = 1"
    by (simp_all add: fresh_world_def default_state_def checkpoint_def persisted_def load_state_def)
  from checkpoint_never_decreases [OF bs, of "quiet_env (archive [3, 120, 250])" 0 0 fresh_world
      2 250] bs cp
  show ?thesis by simp
qed

theorem negative_batch_size_lowers_checkpoint:
  "checkpoint (state fresh_world) = 1
   \<and> checkpoint (state fresh_world) \<le> 250
   \<and> checkpoint (state (batch_body (make_config 200 (- 5)) (quiet_env (archive [250]))
        250 (checkpoint (state fresh_world)) fresh_world)) = - 4
   \<and> persisted fresh_world = 1
   \<and> persisted (batch_body (make_config 200 (- 5)) (quiet_env (archive [250]))
        250 (checkpoint (state fresh_world)) fresh_world) = - 4
   \<and> persisted resumed_world = 101
   \<and> persisted (save_state torn_env resumed_world) = 1"
  by (simp add: fresh_world_def default_state_def checkpoint_def persisted_def load_state_def
      make_config_def window_end_def batch_body_eq Let_def scrape_id_range_def
      scrape_pages_unfold [of _ _ _ _ 1] max_pages_def page_of_def quiet_env_def records_of_def
      resumed_world_def torn_env_def)

subsection \<open>Saving the state\<close>

text \<open>
  C1, as amended. \<^verbatim>\<open>_save_state\<close> stamps \<^verbatim>\<open>last_update\<close> and rewrites the state file in
  place. When the write completes, the file holds exactly the stamped state and loading
  it gives that state back; when the file cannot be opened, it is left as it was; when
  an exception stops the write after the file has been opened and before the whole text
  has reached it, the file holds a truncated text, which is loaded as the default
  state; when the exception comes after the whole text has reached the file, the file
  is complete. The output file is not touched. The overwrite is not
  atomic: in the example a save that stops right after \<^verbatim>\<open>open\<close> leaves a file that
  is neither the old state nor the new one, and the checkpoint 101 it held is read back
  as 1.
\<close>

theorem save_rewrites_in_place:
  "state (save_state e w) = (state w)\<lparr>last_update := Some (now_iso e (saves w))\<rparr>
   \<and> (state_io e (saves w) = Completes \<longrightarrow>
        state_file (save_state e w) = Intact (state (save_state e w))
        \<and> load_state (state_file (save_state e w)) = state (save_state e w))
   \<and> (state_io e (saves w) = OpenFails \<longrightarrow> state_file (save_state e w) = state_file w)
   \<and> (\<forall>n. state_io e (saves w) = WriteFails n
          \<and> n < length (state_text (state (save_state e w))) \<longrightarrow>
        state_file (save_state e w) = Partial (state (save_state e w)) n
        \<and> load_state (state_file (save_state e w)) = default_state)
   \<and> (\<forall>n. state_io e (saves w) = WriteFails n
          \<and> length (state_text (state (save_state e w))) \<le> n \<longrightarrow>
        state_file (save_state e w) = Intact (state (save_state e w))
        \<and> load_state (state_file (save_state e w)) = state (save_state e w))
   \<and> output_file (save_state e w) = output_file w"
  by (simp add: load_state_def)

theorem save_rewrites_in_place_witness:
  "state_io (quiet_env (archive [250])) (saves resumed_world) = Completes
   \<and> load_state (state_file (save_state (quiet_env (archive [250])) resumed_world))
       = state (save_state (quiet_env (archive [250])) resumed_world)
   \<and> persisted (save_state (quiet_env (archive [250])) resumed_world) = 101
   \<and> state_io late_env (saves resumed_world) = WriteFails 1000
   \<and> length (state_text (state (save_state late_env resumed_world))) \<le> 1000
   \<and> state_file (save_state late_env resumed_world)
       = Intact (state (save_state late_env resumed_world))
   \<and> load_state (state_file (save_state late_env resumed_world))
       = state (save_state late_env resumed_world)"
proof -
  have h: "state_io (quiet_env (archive [250])) (saves resumed_world) = Completes"
    by (simp add: quiet_env_def)
  from save_rewrites_in_place [of "quiet_env (archive [250])" resumed_world] h
  have first: "load_state (state_file (save_state (quiet_env (archive [250])) resumed_world))
       = state (save_state (quiet_env (archive [250])) resumed_world)
     \<and> persisted (save_state (quiet_env (archive [250])) resumed_world) = 101"
    by (simp add: persisted_def resumed_world_def fresh_world_def checkpoint_def)
  have late: "state_io late_env (saves resumed_world) = WriteFails 1000"
    by (simp add: late_env_def)
  have whole: "length (state_text (state (save_state late_env resumed_world))) \<le> 1000"
    by (simp add: late_env_def resumed_world_def fresh_world_def default_state_def quiet_env_def
        state_text_def quote_def escape_char_def str_int_def str_nat.simps)
  from save_rewrites_in_place [of late_env resumed_world] late whole
  have "state_file (save_state late_env resumed_world)
       = Intact (state (save_state late_env resumed_world))
     \<and> load_state (state_file (save_state late_env resumed_world))
       = state (save_state late_env resumed_world)"
    by simp
  with h first late whole show ?thesis by blast
qed

theorem torn_save_loses_progress:
  "persisted resumed_world = 101
   \<and> state_file (save_state torn_env resumed_world)
       = Partial (state (save_state torn_env resumed_world)) 0
   \<and> load_state (state_file (save_state torn_env resumed_world)) = default_state
   \<and> persisted (save_state torn_env resumed_world) = 1
   \<and> checkpoint (state (start_process (save_state torn_env resumed_world))) = 1"
  by (simp add: resumed_world_def torn_env_def fresh_world_def default_state_def checkpoint_def
      persisted_def load_state_def start_process_def quiet_env_def)

subsection \<open>The text of a record has no line end\<close>

lemma single_line_simps [simp]:
  "single_line []"
  "single_line (ch # s) \<longleftrightarrow> ch \<noteq> newline \<and> ch \<noteq> carriage_return \<and> single_line s"
  "single_line (s @ t) \<longleftrightarrow> single_line s \<and> single_line t"
  by (auto simp: single_line_def)

lemma digit_char_in: "digit_char d \<in> set ''0123456789abcdef''"
  unfolding digit_char_def by (rule nth_mem) simp

lemma digit_char_single_line [simp]: "digit_char d \<noteq> newline" "digit_char d \<noteq> carriage_return"
  using digit_char_in [of d] by (auto simp: newline_def carriage_return_def)

lemma str_nat_single_line [simp]: "single_line (str_nat n)"
proof (induction n rule: str_nat.induct)
  case (1 n)
  then show ?case by (subst str_nat.simps) simp
qed

lemma str_int_single_line [simp]: "single_line (str_int i)"
  by (simp add: str_int_def) (simp add: newline_def carriage_return_def)

lemma dec_digits_single_line [simp]: "single_line (dec_digits ds)"
  by (induction ds) (simp_all add: dec_digits_def)

lemma float_text_single_line [simp]: "single_line (float_text x)"
  by (cases x) (auto simp: float_text_def newline_def carriage_return_def split: option.split)

lemma escape_char_single_line [simp]: "single_line (escape_char ch)"
  by (simp add: escape_char_def) (simp add: newline_def carriage_return_def)

lemma quote_single_line [simp]: "single_line (quote s)"
proof -
  have "single_line (concat (map escape_char s))" by (induction s) simp_all
  then show ?thesis by (simp add: quote_def) (simp add: newline_def carriage_return_def)
qed

lemma join_single_line:
  "single_line sep \<Longrightarrow> (\<And>x. x \<in> set xs \<Longrightarrow> single_line x) \<Longrightarrow> single_line (join sep xs)"
  by (induction sep xs rule: join.induct) auto

lemma separator_single_line [simp]: "single_line '', ''" "single_line '': ''"
  by (simp_all add: newline_def carriage_return_def)

lemma json_dumps_single_line: "single_line (json_dumps v)"
proof (induction v rule: json_dumps.induct)
  case 1
  show ?case by (simp add: newline_def carriage_return_def)
next
  case (2 b)
  show ?case by (simp add: newline_def carriage_return_def)
next
  case (3 i)
  show ?case by simp
next
  case (4 x)
  show ?case by simp
next
  case (5 s)
  show ?case by simp
next
  case (6 vs)
  have "single_line (join '', '' (map json_dumps vs))"
    by (rule join_single_line) (use 6 in \<open>auto simp: newline_def carriage_return_def\<close>)
  then show ?case by (simp add: newline_def carriage_return_def)
next
  case (7 kvs)
  have "single_line (join '', '' (map (\<lambda>kv. quote (fst kv) @ '': '' @ json_dumps (snd kv)) kvs))"
    by (rule join_single_line) (use 7 in \<open>auto simp: newline_def carriage_return_def\<close>)
  then show ?case by (simp add: newline_def carriage_return_def)
qed

subsection \<open>The lines of a file\<close>

lemma line_ends_differ [simp]: "carriage_return \<noteq> newline" "newline \<noteq> carriage_return"
  by (simp_all add: newline_def carriage_return_def)

lemma file_lines_from_newline:
  "file_lines_from cur (newline # cs) = cur # file_lines_from [] cs"
  by (cases cs) simp_all

lemma file_lines_from_plain:
  "ch \<noteq> newline \<Longrightarrow> ch \<noteq> carriage_return \<Longrightarrow>
     file_lines_from cur (ch # cs) = file_lines_from (cur @ [ch]) cs"
  by (cases cs) simp_all

lemma file_lines_from_return:
  "file_lines_from cur (carriage_return # nx # cs) =
     (if nx = newline then cur # file_lines_from [] cs else cur # file_lines_from [] (nx # cs))"
  by (simp add: newline_def carriage_return_def)

lemma file_lines_from_line:
  "single_line l \<Longrightarrow> file_lines_from cur (l @ newline # rest) = (cur @ l) # file_lines_from [] rest"
  by (induction l arbitrary: cur) (simp_all add: file_lines_from_newline file_lines_from_plain)

lemma file_lines_from_append:
  "xs \<noteq> [] \<Longrightarrow> last xs = newline \<Longrightarrow>
     file_lines_from cur (xs @ ys) = file_lines_from cur xs @ file_lines_from [] ys"
proof (induction xs arbitrary: cur)
  case Nil
  then show ?case by simp
next
  case (Cons x xs)
  show ?case
  proof (cases "xs = []")
    case True
    with Cons.prems show ?thesis by (simp add: file_lines_from_newline)
  next
    case False
    with Cons.prems have l: "last xs = newline" by simp
    note IH = Cons.IH [OF False l]
    obtain nx cs where xs: "xs = nx # cs" using False by (cases xs) auto
    consider "x = newline" | "x = carriage_return" | "x \<noteq> newline" "x \<noteq> carriage_return"
      by blast
    then show ?thesis
    proof cases
      case 1
      with IH show ?thesis by (simp add: file_lines_from_newline)
    next
      case 2
      show ?thesis
      proof (cases "nx = newline")
        case True
        from IH [of "[]"] have "file_lines_from [] (cs @ ys) = file_lines_from [] cs @ file_lines_from [] ys"
          by (simp add: xs True file_lines_from_newline)
        with 2 True xs show ?thesis by (simp add: file_lines_from_return)
      next
        case False
        with 2 xs IH [of "[]"] show ?thesis by (simp add: file_lines_from_return)
      qed
    next
      case 3
      with IH show ?thesis by (simp add: file_lines_from_plain)
    qed
  qed
qed

lemma file_lines_posts: "file_lines (concat (map post_line ps)) = map post_text ps"
proof (induction ps)
  case Nil
  show ?case by (simp add: file_lines_def)
next
  case (Cons p ps)
  have "single_line (json_dumps (post_json p))" by (rule json_dumps_single_line)
  from file_lines_from_line [OF this, of "[]" "concat (map post_line ps)"] Cons
  show ?case by (simp add: file_lines_def post_line_def [of p] post_text_def [of p])
qed

lemma file_lines_after:
  assumes "old = [] \<or> last old = newline"
  shows "file_lines (old @ new) = file_lines old @ file_lines new"
proof (cases "old = []")
  case True
  then show ?thesis by (simp add: file_lines_def)
next
  case False
  with assms file_lines_from_append [of old "[]" new] show ?thesis by (simp add: file_lines_def)
qed

subsection \<open>The text of a record is a JSON value\<close>

lemma is_ws_simps [simp]:
  "is_ws []"
  "is_ws (s @ t) \<longleftrightarrow> is_ws s \<and> is_ws t"
  "is_ws '' ''"
  by (simp_all add: is_ws_def ws_char_def)

lemma digits_simps [simp]:
  "digits (s @ [ch]) \<longleftrightarrow> list_all is_digit s \<and> is_digit ch"
  "digits [ch] \<longleftrightarrow> is_digit ch"
  by (auto simp: digits_def)

lemma dec_digit:
  assumes "d < 10"
  shows "is_digit (digit_char d)" and "0 < d \<Longrightarrow> digit_char d \<noteq> CHR ''0''"
proof -
  from assms have "d \<in> {0, 1, 2, 3, 4, 5, 6, 7, 8, 9}" by auto
  then show "is_digit (digit_char d)" and "0 < d \<Longrightarrow> digit_char d \<noteq> CHR ''0''"
    by (auto simp: digit_char_def is_digit_def)
qed

lemma hex_digit: "is_hex (digit_char d)"
  using digit_char_in [of d] by (auto simp: is_hex_def)

lemma str_nat_digits: "digits (str_nat n) \<and> (0 < n \<longrightarrow> hd (str_nat n) \<noteq> CHR ''0'')"
proof (induction n rule: str_nat.induct)
  case (1 n)
  show ?case
  proof (cases "n < 10")
    case True
    with dec_digit [of n] show ?thesis by (subst (1 2) str_nat.simps) (auto simp: digits_def)
  next
    case False
    with 1 have IH: "digits (str_nat (n div 10))" "hd (str_nat (n div 10)) \<noteq> CHR ''0''"
      by auto
    from IH(1) have ne: "str_nat (n div 10) \<noteq> []" by (simp add: digits_def)
    have d: "is_digit (digit_char (n mod 10))" by (rule dec_digit) simp
    from False IH ne d show ?thesis
      by (subst (1 2) str_nat.simps) (simp add: digits_def)
  qed
qed

lemma str_nat_zero: "str_nat 0 = ''0''"
  by (subst str_nat.simps) (simp add: digit_char_def)

lemma json_int_str_nat: "json_int (str_nat n)"
proof (cases "n = 0")
  case True
  then show ?thesis by (simp add: json_int_def str_nat_zero)
next
  case False
  with str_nat_digits [of n] show ?thesis by (simp add: json_int_def)
qed

lemma json_number_parts:
  "(sg = [] \<or> sg = ''-'') \<Longrightarrow> json_int whole \<Longrightarrow> json_frac frac \<Longrightarrow> json_exp ex \<Longrightarrow>
     json_number (sg @ whole @ frac @ ex)"
  unfolding json_number_def by blast

lemma json_number_str_int: "json_number (str_int i)"
proof (cases "i < 0")
  case True
  from json_number_parts [of "''-''" "str_nat (nat (- i))" "[]" "[]"] True show ?thesis
    by (simp add: str_int_def json_int_str_nat json_frac_def json_exp_def)
next
  case False
  from json_number_parts [of "[]" "str_nat (nat i)" "[]" "[]"] False show ?thesis
    by (simp add: str_int_def json_int_str_nat json_frac_def json_exp_def)
qed

lemma dec_digits_all: "list_all is_digit (dec_digits ds)"
  by (induction ds) (simp_all add: dec_digits_def dec_digit)

lemma dec_digits_digits: "ds \<noteq> [] \<Longrightarrow> digits (dec_digits ds)"
  using dec_digits_all [of ds] by (simp add: digits_def dec_digits_def)

lemma padded_digits: "digits ((if n < 10 then ''0'' else []) @ str_nat n)"
  using str_nat_digits [of n] by (auto simp: digits_def is_digit_def)

lemma json_number_finite: "json_number (float_text (Finite negative whole frac ex))"
proof -
  let ?sg = "if negative then ''-'' else []"
  have sg: "?sg = [] \<or> ?sg = ''-''" by simp
  show ?thesis
  proof (cases ex)
    case None
    let ?f = "''.'' @ (if frac = [] then ''0'' else dec_digits frac)"
    have "json_frac ?f"
      using dec_digits_digits [of frac] by (auto simp: json_frac_def is_digit_def)
    from json_number_parts [OF sg json_int_str_nat this, of "[]" whole] None show ?thesis
      by (simp add: float_text_def json_exp_def)
  next
    case (Some x)
    let ?f = "if frac = [] then [] else ''.'' @ dec_digits frac"
    let ?e = "''e'' @ (if x < 0 then ''-'' else ''+'') @ (if nat \<bar>x\<bar> < 10 then ''0'' else [])
                @ str_nat (nat \<bar>x\<bar>)"
    have f: "json_frac ?f"
      using dec_digits_digits [of frac] by (auto simp: json_frac_def)
    have e: "json_exp ?e"
      using padded_digits [of "nat \<bar>x\<bar>"] by (auto simp: json_exp_def)
    from json_number_parts [OF sg json_int_str_nat f e, of whole] Some show ?thesis
      by (simp add: float_text_def)
  qed
qed

lemma json_chars_escape:
  assumes "json_chars s"
  shows "json_chars (escape_char ch @ s)"
proof (cases "ch \<in> set [CHR 0x22, CHR 0x5C, CHR 0x0A, CHR 0x0D, CHR 0x09, CHR 0x08, CHR 0x0C]")
  case True
  then consider "ch = CHR 0x22" | "ch = CHR 0x5C" | "ch = CHR 0x0A" | "ch = CHR 0x0D"
    | "ch = CHR 0x09" | "ch = CHR 0x08" | "ch = CHR 0x0C"
    by auto
  then show ?thesis
    by cases (simp_all add: escape_char_def chars_escape assms)
next
  case False
  then have other: "ch \<noteq> CHR 0x22" "ch \<noteq> CHR 0x5C" "ch \<noteq> CHR 0x0A" "ch \<noteq> CHR 0x0D"
    "ch \<noteq> CHR 0x09" "ch \<noteq> CHR 0x08" "ch \<noteq> CHR 0x0C"
    by auto
  show ?thesis
  proof (cases "(of_char ch :: nat) < 32")
    case True
    have zero: "is_hex (CHR ''0'')" by (simp add: is_hex_def)
    have "json_chars (CHR 0x5C # CHR ''u'' # CHR ''0'' # CHR ''0''
        # digit_char (of_char ch div 16) # digit_char (of_char ch mod 16) # s)"
      by (rule chars_unicode [OF zero zero hex_digit hex_digit assms])
    with True other show ?thesis by (simp add: escape_char_def)
  next
    case False
    then have "32 \<le> (of_char ch :: nat)" by simp
    from chars_plain [OF this other(1,2) assms] False other show ?thesis
      by (simp add: escape_char_def)
  qed
qed

lemma json_chars_escaped: "json_chars (concat (map escape_char s))"
  by (induction s) (simp_all add: json_chars.chars_end json_chars_escape)

lemma json_string_quote: "json_string (quote s)"
  unfolding json_string_def quote_def using json_chars_escaped by blast

lemma json_elements_ws: "json_elements es \<Longrightarrow> is_ws w \<Longrightarrow> json_elements (w @ es)"
proof (erule json_elements.cases)
  fix w1 v w2
  assume "is_ws w" "es = w1 @ v @ w2" "is_ws w1" "json_value v" "is_ws w2"
  with elements_last [of "w @ w1" v w2] show "json_elements (w @ es)" by simp
next
  fix w1 v w2 es'
  assume "is_ws w" "es = w1 @ v @ w2 @ CHR '','' # es'" "is_ws w1" "json_value v" "is_ws w2"
    "json_elements es'"
  with elements_more [of "w @ w1" v w2 es'] show "json_elements (w @ es)" by simp
qed

lemma json_members_ws: "json_members ms \<Longrightarrow> is_ws w \<Longrightarrow> json_members (w @ ms)"
proof (erule json_members.cases)
  fix w1 k w2 w3 v w4
  assume "is_ws w" "ms = w1 @ k @ w2 @ CHR '':'' # w3 @ v @ w4" "is_ws w1" "json_string k"
    "is_ws w2" "is_ws w3" "json_value v" "is_ws w4"
  with members_last [of "w @ w1" k w2 w3 v w4] show "json_members (w @ ms)" by simp
next
  fix w1 k w2 w3 v w4 ms'
  assume "is_ws w" "ms = w1 @ k @ w2 @ CHR '':'' # w3 @ v @ w4 @ CHR '','' # ms'" "is_ws w1"
    "json_string k" "is_ws w2" "is_ws w3" "json_value v" "is_ws w4" "json_members ms'"
  with members_more [of "w @ w1" k w2 w3 v w4 ms'] show "json_members (w @ ms)" by simp
qed

lemma json_elements_join:
  "xs \<noteq> [] \<Longrightarrow> (\<And>x. x \<in> set xs \<Longrightarrow> json_value x) \<Longrightarrow> json_elements (join '', '' xs)"
proof (induction "'', ''" xs rule: join.induct)
  case 1
  then show ?case by simp
next
  case (2 x)
  with elements_last [of "[]" x "[]"] show ?case by simp
next
  case (3 x y ys)
  then have "json_elements (join '', '' (y # ys))" by simp
  then have "json_elements ('' '' @ join '', '' (y # ys))" by (rule json_elements_ws) simp
  with elements_more [of "[]" x "[]" "'' '' @ join '', '' (y # ys)"] 3 show ?case by simp
qed

lemma json_members_join:
  "kvs \<noteq> [] \<Longrightarrow> (\<And>kv. kv \<in> set kvs \<Longrightarrow> json_string (fst kv) \<and> json_value (snd kv)) \<Longrightarrow>
     json_members (join '', '' (map (\<lambda>kv. fst kv @ '': '' @ snd kv) kvs))"
proof (induction kvs rule: induct_list012)
  case 1
  then show ?case by simp
next
  case (2 kv)
  with members_last [of "[]" "fst kv" "[]" "'' ''" "snd kv" "[]"] show ?case by simp
next
  case (3 kv kv' kvs)
  let ?rest = "join '', '' (map (\<lambda>kv. fst kv @ '': '' @ snd kv) (kv' # kvs))"
  from 3 have "json_members ?rest" by simp
  then have "json_members ('' '' @ ?rest)" by (rule json_members_ws) simp
  with members_more [of "[]" "fst kv" "[]" "'' ''" "snd kv" "[]" "'' '' @ ?rest"] "3.prems"
  show ?case by simp
qed

lemma json_dumps_valid: "finite_json v \<Longrightarrow> json_value (json_dumps v)"
proof (induction v rule: json_dumps.induct)
  case 1
  show ?case by (simp add: value_null)
next
  case (2 b)
  show ?case by (simp add: value_true value_false)
next
  case (3 i)
  show ?case by (simp add: value_number json_number_str_int)
next
  case (4 x)
  then show ?case by (cases x) (simp_all add: value_number json_number_finite)
next
  case (5 s)
  show ?case by (simp add: value_string json_string_quote)
next
  case (6 vs)
  show ?case
  proof (cases "vs = []")
    case True
    with value_empty_array [of "[]"] show ?thesis by simp
  next
    case False
    have "json_elements (join '', '' (map json_dumps vs))"
      by (rule json_elements_join) (use False 6 in \<open>auto simp: list_all_iff\<close>)
    from value_array [OF this] show ?thesis by simp
  qed
next
  case (7 kvs)
  show ?case
  proof (cases "kvs = []")
    case True
    with value_empty_object [of "[]"] show ?thesis by simp
  next
    case False
    let ?ts = "map (\<lambda>kv. (quote (fst kv), json_dumps (snd kv))) kvs"
    have "json_members (join '', '' (map (\<lambda>kv. fst kv @ '': '' @ snd kv) ?ts))"
      by (rule json_members_join)
         (use False 7 in \<open>auto simp: list_all_iff json_string_quote\<close>)
    then have "json_members (join '', '' (map (\<lambda>kv. quote (fst kv) @ '': '' @ json_dumps (snd kv)) kvs))"
      by (simp add: comp_def)
    from value_object [OF this] show ?thesis by simp
  qed
qed

subsection \<open>What a JSON value begins and ends with\<close>

lemma digits_ends: "digits s \<Longrightarrow> s \<noteq> [] \<and> is_digit (hd s) \<and> is_digit (last s)"
  by (cases s) (auto simp: digits_def list_all_iff)

lemma json_int_ends: "json_int s \<Longrightarrow> s \<noteq> [] \<and> is_digit (hd s) \<and> is_digit (last s)"
  using digits_ends [of s] by (auto simp: json_int_def is_digit_def)

lemma json_frac_last: "json_frac s \<Longrightarrow> s \<noteq> [] \<Longrightarrow> is_digit (last s)"
  using digits_ends by (cases s) (auto simp: json_frac_def)

lemma json_exp_last: "json_exp s \<Longrightarrow> s \<noteq> [] \<Longrightarrow> is_digit (last s)"
proof (cases s)
  case Nil
  then show "s \<noteq> [] \<Longrightarrow> is_digit (last s)" by simp
next
  case (Cons ch r)
  assume "json_exp s"
  with Cons have "digits r \<or> (\<exists>sg ds. r = sg # ds \<and> digits ds)"
    by (auto simp: json_exp_def split: list.splits)
  then show "is_digit (last s)"
    using Cons digits_ends by auto
qed

lemma json_number_ends:
  assumes "json_number s"
  shows "s \<noteq> [] \<and> (hd s = CHR ''-'' \<or> is_digit (hd s)) \<and> is_digit (last s)"
proof -
  from assms obtain sg whole frac ex where s: "s = sg @ whole @ frac @ ex"
    and sg: "sg = [] \<or> sg = ''-''" and w: "json_int whole" and f: "json_frac frac"
    and e: "json_exp ex"
    unfolding json_number_def by blast
  from json_int_ends [OF w] have w': "whole \<noteq> []" "is_digit (hd whole)" "is_digit (last whole)"
    by simp_all
  have first: "hd s = CHR ''-'' \<or> is_digit (hd s)"
    using sg s w' by auto
  have "is_digit (last s)"
  proof (cases "ex = []")
    case False
    with json_exp_last [OF e] s show ?thesis by simp
  next
    case True
    show ?thesis
    proof (cases "frac = []")
      case False
      with json_frac_last [OF f] True s show ?thesis by simp
    next
      case frac: True
      with True s w' show ?thesis by simp
    qed
  qed
  with first s w' show ?thesis by simp
qed

lemma json_string_ends: "json_string s \<Longrightarrow> s \<noteq> [] \<and> hd s = CHR 0x22 \<and> last s = CHR 0x22"
  by (auto simp: json_string_def)

lemma last_padded: "v \<noteq> [] \<Longrightarrow> is_ws w \<Longrightarrow> last (v @ w) = last v \<or> ws_char (last (v @ w))"
  by (cases "w = []") (auto simp: is_ws_def list_all_iff)

lemma json_value_ends:
  shows "json_value v \<Longrightarrow> v \<noteq> [] \<and> value_end (last v)"
    and "json_elements es \<Longrightarrow> es \<noteq> [] \<and> (value_end (last es) \<or> ws_char (last es))"
    and "json_members ms \<Longrightarrow> ms \<noteq> [] \<and> (value_end (last ms) \<or> ws_char (last ms))"
proof (induction rule: json_value_json_elements_json_members.inducts)
  case value_null
  show ?case by (simp add: value_end_def)
next
  case value_true
  show ?case by (simp add: value_end_def)
next
  case value_false
  show ?case by (simp add: value_end_def)
next
  case (value_number s)
  with json_number_ends [of s] show ?case by (simp add: value_end_def)
next
  case (value_string s)
  with json_string_ends [of s] show ?case by (simp add: value_end_def)
next
  case (value_empty_array w)
  show ?case by (simp add: value_end_def)
next
  case (value_array es)
  show ?case by (simp add: value_end_def)
next
  case (value_empty_object w)
  show ?case by (simp add: value_end_def)
next
  case (value_object ms)
  show ?case by (simp add: value_end_def)
next
  case (elements_last w1 v w2)
  with last_padded [of v w2] show ?case by auto
next
  case (elements_more w1 v w2 es)
  then show ?case by simp
next
  case (members_last w1 k w2 w3 v w4)
  with last_padded [of v w4] show ?case by auto
next
  case (members_more w1 k w2 w3 v w4 ms)
  then show ?case by simp
qed

lemma json_object_body:
  assumes "json_value (CHR ''{'' # body @ ''}'')"
  shows "is_ws body \<or> json_members body"
  using assms
proof (rule json_value.cases)
  assume "CHR ''{'' # body @ ''}'' = ''null''"
  then show ?thesis by simp
next
  assume "CHR ''{'' # body @ ''}'' = ''true''"
  then show ?thesis by simp
next
  assume "CHR ''{'' # body @ ''}'' = ''false''"
  then show ?thesis by simp
next
  fix s
  assume "CHR ''{'' # body @ ''}'' = s" and "json_number s"
  with json_number_ends [of s] have "hd s = CHR ''{''" and "hd s = CHR ''-'' \<or> is_digit (hd s)"
    by auto
  then show ?thesis by (simp add: is_digit_def)
next
  fix s
  assume "CHR ''{'' # body @ ''}'' = s" and "json_string s"
  with json_string_ends [of s] have "hd s = CHR ''{''" and "hd s = CHR 0x22"
    by auto
  then show ?thesis by simp
next
  fix w
  assume "CHR ''{'' # body @ ''}'' = CHR ''['' # w @ '']''"
  then show ?thesis by simp
next
  fix es
  assume "CHR ''{'' # body @ ''}'' = CHR ''['' # es @ '']''"
  then show ?thesis by simp
next
  fix w
  assume "CHR ''{'' # body @ ''}'' = CHR ''{'' # w @ ''}''" and "is_ws w"
  then show ?thesis by simp
next
  fix ms
  assume "CHR ''{'' # body @ ''}'' = CHR ''{'' # ms @ ''}''" and "json_members ms"
  then show ?thesis by simp
qed

lemma json_object_last:
  assumes "json_value (CHR ''{'' # body @ ''}'')" and "body \<noteq> []"
  shows "value_end (last body) \<or> ws_char (last body)"
proof -
  from json_object_body [OF assms(1)] show ?thesis
  proof
    assume "is_ws body"
    with assms(2) show ?thesis by (auto simp: is_ws_def list_all_iff)
  next
    assume "json_members body"
    with json_value_ends(3) show ?thesis by blast
  qed
qed

lemma overflow_post_text:
  "post_text overflow_post
     = CHR ''{'' # (CHR 0x22 # ''id'' @ CHR 0x22 # '': 5, '' @ CHR 0x22 # ''score'' @ CHR 0x22
         # '': Infinity'') @ ''}''"
  by (simp add: post_text_def post_json_def overflow_post_def quote_def escape_char_def
      str_int_def str_nat.simps digit_char_def float_text_def)

lemma overflow_post_invalid: "\<not> json_value (post_text overflow_post)"
proof
  assume "json_value (post_text overflow_post)"
  then have "json_value (CHR ''{'' # (CHR 0x22 # ''id'' @ CHR 0x22 # '': 5, '' @ CHR 0x22
      # ''score'' @ CHR 0x22 # '': Infinity'') @ ''}'')"
    by (simp only: overflow_post_text)
  from json_object_last [OF this] show False
    by (simp add: value_end_def ws_char_def is_digit_def)
qed

subsection \<open>Record sink: one line per record\<close>

lemma append_all_output:
  "(\<And>k. k < length batches \<Longrightarrow> output_io e (appends w + k) = Completes) \<Longrightarrow>
     output_file (append_all e batches w) = output_file w @ concat (map post_line (concat batches))"
proof (induction batches arbitrary: w)
  case Nil
  show ?case by simp
next
  case (Cons b bs)
  from Cons.prems [of 0] have first: "output_io e (appends w) = Completes" by simp
  have "\<And>k. k < length bs \<Longrightarrow> output_io e (appends (append_posts_to_file e b w) + k) = Completes"
    using Cons.prems [of "Suc k" for k] by simp
  from Cons.IH [OF this] first show ?case by simp
qed

lemma append_posts_prefix: "prefix (output_file w) (output_file (append_posts_to_file e posts w))"
  by (cases "output_io e (appends w)") simp_all

lemma append_all_prefix: "prefix (output_file w) (output_file (append_all e batches w))"
proof (induction batches arbitrary: w)
  case Nil
  show ?case by simp
next
  case (Cons b bs)
  from append_posts_prefix [of w e b] Cons [of "append_posts_to_file e b w"] show ?case
    by (auto intro: prefix_order.trans)
qed

lemma append_all_append: "append_all e (xs @ ys) w = append_all e ys (append_all e xs w)"
  by (induction xs arbitrary: w) auto

lemma append_all_take_prefix:
  "prefix (output_file (append_all e (take j batches) w)) (output_file (append_all e batches w))"
  using append_all_prefix [of "append_all e (take j batches) w" e "drop j batches"]
    append_all_append [of e "take j batches" "drop j batches" w]
  by simp

text \<open>
  C7, as amended. After any sequence of calls of \<^verbatim>\<open>_append_posts_to_file\<close> whose
  writes all complete, on a file that was empty or ended with a newline, the lines of the
  file are the lines it had followed by the \<^verbatim>\<open>json.dumps\<close> texts of the records, one
  line per record in the order the records were passed; so the number of lines grows by
  the number of records. No text of a record contains a line end. The text of a record
  whose floats are all finite is a JSON value of RFC 8259. What the file held after any
  number of the calls is a prefix of what it holds at the end: nothing written is
  changed. Started from an empty file, with the ids of the records passed in
  non-decreasing order, the lines are the texts of records in non-decreasing order of
  id.
\<close>

theorem sink_appends_lines:
  assumes ok: "\<forall>k < length batches. output_io e (appends w + k) = Completes"
    and start: "output_file w = [] \<or> last (output_file w) = newline"
  shows "file_lines (output_file (append_all e batches w))
           = file_lines (output_file w) @ map post_text (concat batches)
       \<and> count_posts (output_file (append_all e batches w))
           = count_posts (output_file w) + length (concat batches)
       \<and> (\<forall>p \<in> set (concat batches). single_line (post_text p))
       \<and> (\<forall>p \<in> set (concat batches). finite_json (post_json p) \<longrightarrow> json_value (post_text p))
       \<and> (\<forall>j. prefix (output_file (append_all e (take j batches) w))
                 (output_file (append_all e batches w)))
       \<and> (output_file w = [] \<and> sorted (map post_id (concat batches)) \<longrightarrow>
            (\<exists>ps. file_lines (output_file (append_all e batches w)) = map post_text ps
                  \<and> sorted (map post_id ps)))"
proof -
  from ok have "output_file (append_all e batches w)
      = output_file w @ concat (map post_line (concat batches))"
    by (intro append_all_output) simp
  with file_lines_after [OF start, of "concat (map post_line (concat batches))"]
  have lines: "file_lines (output_file (append_all e batches w))
           = file_lines (output_file w) @ map post_text (concat batches)"
    by (simp add: file_lines_posts)
  then have count: "count_posts (output_file (append_all e batches w))
           = count_posts (output_file w) + length (concat batches)"
    by (simp add: count_posts_def)
  have single: "\<forall>p \<in> set (concat batches). single_line (post_text p)"
    by (simp add: post_text_def json_dumps_single_line)
  have valid: "\<forall>p \<in> set (concat batches). finite_json (post_json p) \<longrightarrow> json_value (post_text p)"
    by (simp add: post_text_def json_dumps_valid)
  have keep: "\<forall>j. prefix (output_file (append_all e (take j batches) w))
                 (output_file (append_all e batches w))"
    by (simp add: append_all_take_prefix)
  have order: "output_file w = [] \<and> sorted (map post_id (concat batches)) \<longrightarrow>
            (\<exists>ps. file_lines (output_file (append_all e batches w)) = map post_text ps
                  \<and> sorted (map post_id ps))"
    using lines by (auto simp: file_lines_def)
  from lines count single valid keep order show ?thesis by blast
qed

theorem sink_appends_lines_witness:
  "output_io (quiet_env (archive [])) (appends fresh_world + 0) = Completes
   \<and> output_io (quiet_env (archive [])) (appends fresh_world + 1) = Completes
   \<and> file_lines (output_file (append_all (quiet_env (archive []))
        [[mk_post 1, mk_post 2], [mk_post 3]] fresh_world))
       = [post_text (mk_post 1), post_text (mk_post 2), post_text (mk_post 3)]
   \<and> count_posts (output_file (append_all (quiet_env (archive []))
        [[mk_post 1, mk_post 2], [mk_post 3]] fresh_world)) = 3
   \<and> post_text (mk_post 3) = ''{'' @ [CHR 0x22] @ ''id'' @ [CHR 0x22] @ '': 3}''
   \<and> finite_json (post_json (mk_post 3))
   \<and> json_value (post_text (mk_post 3))
   \<and> single_line (post_text (mk_post 3))"
proof -
  let ?e = "quiet_env (archive [])" and ?bs = "[[mk_post 1, mk_post 2], [mk_post 3]]"
  have io: "\<And>k. output_io ?e k = Completes"
    by (simp add: quiet_env_def)
  then have ok: "\<forall>k < length ?bs. output_io ?e (appends fresh_world + k) = Completes"
    by blast
  have start: "output_file fresh_world = [] \<or> last (output_file fresh_world) = newline"
    by (simp add: fresh_world_def)
  have empty: "file_lines (output_file fresh_world) = []" "count_posts (output_file fresh_world) = 0"
    by (simp_all add: fresh_world_def file_lines_def count_posts_def)
  have t3: "post_text (mk_post 3) = ''{'' @ [CHR 0x22] @ ''id'' @ [CHR 0x22] @ '': 3}''"
    by (simp add: post_text_def post_json_def mk_post_def quote_def escape_char_def str_int_def
        str_nat.simps digit_char_def)
  have fin: "finite_json (post_json (mk_post 3))"
    by (simp add: post_json_def mk_post_def)
  have third: "mk_post 3 \<in> set (concat ?bs)"
    by simp
  from sink_appends_lines [OF ok start]
  have "file_lines (output_file (append_all ?e ?bs fresh_world))
          = file_lines (output_file fresh_world) @ map post_text (concat ?bs)"
    and "count_posts (output_file (append_all ?e ?bs fresh_world))
          = count_posts (output_file fresh_world) + length (concat ?bs)"
    and s: "\<forall>p \<in> set (concat ?bs). single_line (post_text p)"
    and v: "\<forall>p \<in> set (concat ?bs). finite_json (post_json p) \<longrightarrow> json_value (post_text p)"
    by blast+
  with empty have "file_lines (output_file (append_all ?e ?bs fresh_world))
          = [post_text (mk_post 1), post_text (mk_post 2), post_text (mk_post 3)]"
    and "count_posts (output_file (append_all ?e ?bs fresh_world)) = 3"
    by simp_all
  moreover from s third have "single_line (post_text (mk_post 3))" by blast
  moreover from v third fin have "json_value (post_text (mk_post 3))" by blast
  ultimately show ?thesis using io t3 fin by blast
qed

text \<open>
  The claim as the specification words it, every line a valid JSON value, fails for a
  record with a float that is not finite, which \<^verbatim>\<open>response.json()\<close> gives for a
  number such as \<^verbatim>\<open>1e999\<close>: \<^verbatim>\<open>json.dumps\<close> is called without
  \<^verbatim>\<open>allow_nan=False\<close> and writes the token \<^verbatim>\<open>Infinity\<close>, so the line is not a
  JSON value.
\<close>

theorem infinite_float_line_is_not_json:
  "output_io (quiet_env (archive [])) (appends fresh_world) = Completes
   \<and> file_lines (output_file (append_all (quiet_env (archive [])) [[overflow_post]] fresh_world))
       = [post_text overflow_post]
   \<and> post_text overflow_post
       = ''{'' @ [CHR 0x22] @ ''id'' @ [CHR 0x22] @ '': 5, '' @ [CHR 0x22] @ ''score'' @ [CHR 0x22]
           @ '': Infinity}''
   \<and> \<not> json_value (post_text overflow_post)"
proof -
  have io: "output_io (quiet_env (archive [])) (appends fresh_world) = Completes"
    by (simp add: quiet_env_def)
  then have "output_file (append_all (quiet_env (archive [])) [[overflow_post]] fresh_world)
      = post_line overflow_post"
    by (simp add: append_posts_to_file_def fresh_world_def)
  with file_lines_posts [of "[overflow_post]"]
  have lines: "file_lines (output_file (append_all (quiet_env (archive [])) [[overflow_post]]
      fresh_world)) = [post_text overflow_post]"
    by simp
  have shown: "post_text overflow_post
       = ''{'' @ [CHR 0x22] @ ''id'' @ [CHR 0x22] @ '': 5, '' @ [CHR 0x22] @ ''score'' @ [CHR 0x22]
           @ '': Infinity}''"
    by (simp add: overflow_post_text)
  from io lines shown overflow_post_invalid show ?thesis by blast
qed

end
